theory Spec2Isabelle
  imports Complex_Main "HOL-Library.Multiset"
begin

section \<open>The HNSW index of gector (engine.go)\<close>

text \<open>
  The engine keeps vectors under string keys in a flat table and in one table per graph
  level. The tables hold pointers to node objects, and one object can be reached from
  several tables, so the model has an explicit store of node objects: an address is an
  index into the list \<open>heap\<close>, and allocating an object appends it to that list.

  A \<open>float64\<close> is modelled as a real number: the arithmetic of the distance function is
  exact here (no rounding, no NaN, no infinities).

  A runtime panic ends the run of the program: an operation that panics returns \<open>Inl\<close> of
  the panic and no index.
\<close>

subsection \<open>Data\<close>

record Vector =
  Vector_ID :: string
  Values :: "real list"

type_synonym addr = nat

record HNSWNode =
  ID :: string
  Neighbors :: "string list"
  Vector :: Vector

text \<open>
  A Go map is a finite partial function; a nil map (a level that was never written) is
  \<open>None\<close>. The iteration order of a Go map is unspecified and may change from one
  \<open>range\<close> loop to the next, so each function with a \<open>range\<close> loop over a table takes
  the order in which that loop visits the keys as an argument (\<open>order\<close>), and
  \<open>range_order\<close> says that a list is such an order: every key once.
\<close>

type_synonym table = "string \<rightharpoonup> addr"

record HNSW =
  heap :: "HNSWNode list"
  nodes :: table
  levels :: "table option list"
  MaxNeighbors :: int
  MaxLevels :: int

datatype panic =
  IndexOutOfRange
  | SliceBoundsOutOfRange
  | NilPointerDereference
  | MakeSliceLenOutOfRange

definition range_order :: "table \<Rightarrow> string list \<Rightarrow> bool" where
  "range_order m order \<longleftrightarrow> distinct order \<and> set order = dom m"

definition entries :: "table option \<Rightarrow> table" where
  \<comment> \<open>reading a nil map behaves as reading an empty map\<close>
  "entries t = (case t of None \<Rightarrow> Map.empty | Some m \<Rightarrow> m)"

definition deref :: "HNSW \<Rightarrow> addr \<Rightarrow> panic + HNSWNode" where
  \<comment> \<open>an address with no object behind it stands for Go's nil pointer\<close>
  "deref h p = (if p < length (heap h) then Inr (heap h ! p) else Inl NilPointerDereference)"

subsection \<open>sort.SliceStable of the Go library\<close>

text \<open>
  \<open>sort.SliceStable(x, less)\<close> runs the library's \<open>stable_func\<close> (file zsortfunc.go of
  package sort) on the index range \<open>0..<len(x)\<close>. That procedure touches the slice
  only through \<open>Less(i, j)\<close>, the caller's closure on two indices, and \<open>Swap(i, j)\<close>,
  which exchanges two elements of \<open>x\<close>. Both call sites in engine.go pass a closure that
  compares two elements of the slice \<open>distances\<close>, which no swap changes; so the closure
  is a fixed relation on indices, and each library procedure is modelled by the list of
  swaps it performs, in order.
\<close>

function insertionSort_inner :: "(nat \<Rightarrow> nat \<Rightarrow> bool) \<Rightarrow> nat \<Rightarrow> nat \<Rightarrow> (nat \<times> nat) list" where
  \<comment> \<open>\<open>for j := i; j > a && data.Less(j, j-1); j-- { data.Swap(j, j-1) }\<close>\<close>
  "insertionSort_inner lt a j =
     (if j > a \<and> lt j (j - 1) then (j, j - 1) # insertionSort_inner lt a (j - 1) else [])"
  by pat_completeness auto
termination
  by (relation "measure (\<lambda>(lt, a, j). j)") auto

function insertionSort_outer :: "(nat \<Rightarrow> nat \<Rightarrow> bool) \<Rightarrow> nat \<Rightarrow> nat \<Rightarrow> nat \<Rightarrow> (nat \<times> nat) list" where
  \<comment> \<open>\<open>for i := a + 1; i < b; i++ { ... }\<close>, from the current \<open>i\<close>\<close>
  "insertionSort_outer lt a b i =
     (if i < b then insertionSort_inner lt a i @ insertionSort_outer lt a b (i + 1) else [])"
  by pat_completeness auto
termination
  by (relation "measure (\<lambda>(lt, a, b, i). b - i)") auto

definition insertionSort_func :: "(nat \<Rightarrow> nat \<Rightarrow> bool) \<Rightarrow> nat \<Rightarrow> nat \<Rightarrow> (nat \<times> nat) list" where
  "insertionSort_func lt a b = insertionSort_outer lt a b (a + 1)"

definition swapRange_func :: "nat \<Rightarrow> nat \<Rightarrow> nat \<Rightarrow> (nat \<times> nat) list" where
  \<comment> \<open>\<open>for i := 0; i < n; i++ { data.Swap(a+i, b+i) }\<close>\<close>
  "swapRange_func a b n = map (\<lambda>i. (a + i, b + i)) [0..<n]"

text \<open>
  \<open>rotate_func\<close> is called only with \<open>a < m < b\<close>, so both counters of its loop start
  positive and stay positive. With a counter at 0 and the other positive the Go loop
  would not end; the model stops there with no further swap.
\<close>

function rotate_loop :: "nat \<Rightarrow> nat \<Rightarrow> nat \<Rightarrow> (nat \<times> nat) list" where
  "rotate_loop m i j =
     (if i \<noteq> j \<and> 0 < i \<and> 0 < j then
        (if i > j then swapRange_func (m - i) m j @ rotate_loop m (i - j) j
         else swapRange_func (m - i) (m + j - i) i @ rotate_loop m i (j - i))
      else swapRange_func (m - i) m i)"
  by pat_completeness auto
termination
  by (relation "measure (\<lambda>(m, i, j). i + j)") auto

definition rotate_func :: "nat \<Rightarrow> nat \<Rightarrow> nat \<Rightarrow> (nat \<times> nat) list" where
  "rotate_func a m b = rotate_loop m (m - a) (b - m)"

function bsearch :: "(nat \<Rightarrow> bool) \<Rightarrow> nat \<Rightarrow> nat \<Rightarrow> nat" where
  \<comment> \<open>the binary-search loop of \<open>symMerge_func\<close>, which occurs three times there:
      \<open>for i < j { h := int(uint(i+j) >> 1); if go_right(h) { i = h + 1 } else { j = h } }\<close>\<close>
  "bsearch go_right i j =
     (if i < j then
        (let h = (i + j) div 2 in
         if go_right h then bsearch go_right (h + 1) j else bsearch go_right i h)
      else i)"
  by pat_completeness auto
termination
  by (relation "measure (\<lambda>(go_right, i, j). j - i)") auto

declare bsearch.simps [simp del]

function symMerge_func :: "(nat \<Rightarrow> nat \<Rightarrow> bool) \<Rightarrow> nat \<Rightarrow> nat \<Rightarrow> nat \<Rightarrow> (nat \<times> nat) list" where
  "symMerge_func lt a m b =
     (if m - a = 1 then
        (let i = bsearch (\<lambda>h. lt h a) m b
         in map (\<lambda>k. (k, k + 1)) [a..<i - 1])
      else if b - m = 1 then
        (let i = bsearch (\<lambda>h. \<not> lt m h) a m
         in map (\<lambda>k. (k, k - 1)) (rev [i + 1..<m + 1]))
      else
        (let mid = (a + b) div 2;
             n = mid + m;
             start0 = (if m > mid then n - b else a);
             r = (if m > mid then mid else m);
             p = n - 1;
             start = bsearch (\<lambda>c. \<not> lt (p - c) c) start0 r;
             end' = n - start
         in (if start < m \<and> m < end' then rotate_func start m end' else [])
            @ (if a < start \<and> start < mid then symMerge_func lt a start mid else [])
            @ (if mid < end' \<and> end' < b then symMerge_func lt mid end' b else [])))"
  by pat_completeness auto
termination
proof (relation "measure (\<lambda>(lt, a, m, b). b - a)", goal_cases)
  case 1
  show ?case by simp
next
  case (2 lt a m b mid n start0 r p start end')
  from 2(3,10) have "mid - a < b - a" by arith
  then show ?case by simp
next
  case (3 lt a m b mid n start0 r p start end')
  from 3(3,10) have "b - mid < b - a" by arith
  then show ?case by simp
qed

text \<open>
  The two loops of \<open>stable_func\<close>. The library fixes \<open>blockSize := 20 // must be > 0\<close>;
  with a block size of 0 its loops would not end, and the model stops there.
\<close>

function stable_blocks :: "(nat \<Rightarrow> nat \<Rightarrow> bool) \<Rightarrow> nat \<Rightarrow> nat \<Rightarrow> nat \<Rightarrow> nat \<Rightarrow> (nat \<times> nat) list" where
  \<comment> \<open>\<open>for b <= n { insertionSort(a, b); a = b; b += blockSize }; insertionSort(a, n)\<close>\<close>
  "stable_blocks lt n blockSize a b =
     (if b \<le> n \<and> 0 < blockSize
      then insertionSort_func lt a b @ stable_blocks lt n blockSize b (b + blockSize)
      else insertionSort_func lt a n)"
  by pat_completeness auto
termination
  by (relation "measure (\<lambda>(lt, n, blockSize, a, b). Suc n - b)") auto

function stable_pass :: "(nat \<Rightarrow> nat \<Rightarrow> bool) \<Rightarrow> nat \<Rightarrow> nat \<Rightarrow> nat \<Rightarrow> nat \<Rightarrow> (nat \<times> nat) list" where
  \<comment> \<open>\<open>for b <= n { symMerge(a, a+blockSize, b); a = b; b += 2 * blockSize };
      if m := a + blockSize; m < n { symMerge(a, m, n) }\<close>\<close>
  "stable_pass lt n blockSize a b =
     (if b \<le> n \<and> 0 < blockSize
      then symMerge_func lt a (a + blockSize) b @ stable_pass lt n blockSize b (b + 2 * blockSize)
      else (if a + blockSize < n then symMerge_func lt a (a + blockSize) n else []))"
  by pat_completeness auto
termination
  by (relation "measure (\<lambda>(lt, n, blockSize, a, b). Suc n - b)") auto

function stable_merges :: "(nat \<Rightarrow> nat \<Rightarrow> bool) \<Rightarrow> nat \<Rightarrow> nat \<Rightarrow> (nat \<times> nat) list" where
  \<comment> \<open>\<open>for blockSize < n { a, b = 0, 2*blockSize; ...; blockSize *= 2 }\<close>\<close>
  "stable_merges lt n blockSize =
     (if blockSize < n \<and> 0 < blockSize
      then stable_pass lt n blockSize 0 (2 * blockSize) @ stable_merges lt n (2 * blockSize)
      else [])"
  by pat_completeness auto
termination
  by (relation "measure (\<lambda>(lt, n, blockSize). n - blockSize)") auto

declare insertionSort_inner.simps [simp del] insertionSort_outer.simps [simp del]
  rotate_loop.simps [simp del] symMerge_func.simps [simp del]
  stable_blocks.simps [simp del] stable_pass.simps [simp del] stable_merges.simps [simp del]

definition stable_func :: "(nat \<Rightarrow> nat \<Rightarrow> bool) \<Rightarrow> nat \<Rightarrow> (nat \<times> nat) list" where
  "stable_func lt n = stable_blocks lt n 20 0 20 @ stable_merges lt n 20"

definition Swap :: "'a list \<Rightarrow> nat \<times> nat \<Rightarrow> 'a list" where
  \<comment> \<open>the swapper of a slice; \<open>stable_func\<close> never calls it outside the slice
      (lemma \<open>stable_func_in_range\<close>)\<close>
  "Swap xs ij =
     (case ij of (i, j) \<Rightarrow>
        if i < length xs \<and> j < length xs then xs[i := xs ! j, j := xs ! i] else xs)"

definition SliceStable :: "'a list \<Rightarrow> (nat \<Rightarrow> nat \<Rightarrow> bool) \<Rightarrow> 'a list" where
  "SliceStable x lt = foldl Swap x (stable_func lt (length x))"


subsection \<open>euclideanDistance\<close>

function euclideanDistance_loop :: "real list \<Rightarrow> real list \<Rightarrow> nat \<Rightarrow> real \<Rightarrow> panic + real" where
  \<comment> \<open>\<open>for i := 0; i < len(v1.Values); i++ { diff := v1.Values[i] - v2.Values[i]; sum += diff * diff }\<close>\<close>
  "euclideanDistance_loop v1 v2 i acc =
     (if i < length v1 then
        (if i < length v2 then
           (let d = v1 ! i - v2 ! i in euclideanDistance_loop v1 v2 (i + 1) (acc + d * d))
         else Inl IndexOutOfRange)
      else Inr acc)"
  by pat_completeness auto
termination
  by (relation "measure (\<lambda>(v1, v2, i, acc). length v1 - i)") auto

declare euclideanDistance_loop.simps [simp del]

definition euclideanDistance :: "Vector \<Rightarrow> Vector \<Rightarrow> panic + real" where
  "euclideanDistance v1 v2 =
     (case euclideanDistance_loop (Values v1) (Values v2) 0 0 of
        Inl e \<Rightarrow> Inl e
      | Inr acc \<Rightarrow> Inr (sqrt acc))"

subsection \<open>Construction\<close>

definition NewHNSW :: "int \<Rightarrow> int \<Rightarrow> panic + HNSW" where
  \<comment> \<open>\<open>make([]map[string]*HNSWNode, maxLevels)\<close> panics on a negative length\<close>
  "NewHNSW maxNeighbors maxLevels =
     (if maxLevels < 0 then Inl MakeSliceLenOutOfRange
      else Inr \<lparr>heap = [], nodes = Map.empty, levels = replicate (nat maxLevels) None,
                MaxNeighbors = maxNeighbors, MaxLevels = maxLevels\<rparr>)"

subsection \<open>findNeighbors and addNodeToLevel\<close>

definition level_table :: "HNSW \<Rightarrow> int \<Rightarrow> panic + table option" where
  \<comment> \<open>the index expression \<open>hnsw.levels[level]\<close>\<close>
  "level_table h level =
     (if 0 \<le> level \<and> level < int (length (levels h)) then Inr (levels h ! nat level)
      else Inl IndexOutOfRange)"

fun findNeighbors_range ::
  "HNSW \<Rightarrow> addr \<Rightarrow> table \<Rightarrow> string list \<Rightarrow> string list \<Rightarrow> real list
    \<Rightarrow> panic + (string list \<times> real list)" where
  \<comment> \<open>the loop \<open>for id, otherNode := range hnsw.levels[level]\<close> over the table \<open>m\<close>, visiting
      the keys in the given order; a listed name that is not a key is passed over\<close>
  "findNeighbors_range h p m [] neighbors distances = Inr (neighbors, distances)"
| "findNeighbors_range h p m (key # order) neighbors distances =
     (case m key of
        None \<Rightarrow> findNeighbors_range h p m order neighbors distances
      | Some q \<Rightarrow>
          (case deref h p of
             Inl e \<Rightarrow> Inl e
           | Inr node \<Rightarrow>
               if ID node = key then findNeighbors_range h p m order neighbors distances
               else
                 (case deref h q of
                    Inl e \<Rightarrow> Inl e
                  | Inr otherNode \<Rightarrow>
                      (case euclideanDistance (Vector node) (Vector otherNode) of
                         Inl e \<Rightarrow> Inl e
                       | Inr d \<Rightarrow>
                           findNeighbors_range h p m order (neighbors @ [key]) (distances @ [d])))))"

definition findNeighbors :: "HNSW \<Rightarrow> string list \<Rightarrow> addr \<Rightarrow> int \<Rightarrow> panic + string list" where
  "findNeighbors h order p level =
     (case level_table h level of
        Inl e \<Rightarrow> Inl e
      | Inr t \<Rightarrow>
          (case findNeighbors_range h p (entries t) order [] [] of
             Inl e \<Rightarrow> Inl e
           | Inr (neighbors, distances) \<Rightarrow>
               (let neighbors = SliceStable neighbors (\<lambda>i j. distances ! i < distances ! j)
                in if int (length neighbors) > MaxNeighbors h then
                     (if MaxNeighbors h < 0 then Inl SliceBoundsOutOfRange
                      else Inr (take (nat (MaxNeighbors h)) neighbors))
                   else Inr neighbors)))"

definition addNodeToLevel :: "HNSW \<Rightarrow> string list \<Rightarrow> addr \<Rightarrow> int \<Rightarrow> panic + HNSW" where
  "addNodeToLevel h order p level =
     (case level_table h level of
        Inl e \<Rightarrow> Inl e
      | Inr t \<Rightarrow>
          (let h = (if t = None then h\<lparr>levels := (levels h)[nat level := Some Map.empty]\<rparr> else h)
           in case deref h p of
                Inl e \<Rightarrow> Inl e
              | Inr node \<Rightarrow>
                  (let h = h\<lparr>levels := (levels h)
                              [nat level := Some ((entries (levels h ! nat level))(ID node \<mapsto> p))]\<rparr>
                   in case findNeighbors h order p level of
                        Inl e \<Rightarrow> Inl e
                      | Inr neighbors \<Rightarrow>
                          Inr (h\<lparr>heap := (heap h)[p := (heap h ! p)\<lparr>Neighbors := neighbors\<rparr>]\<rparr>))))"

subsection \<open>AddVector, DeleteVector, UpdateVector\<close>

text \<open>
  \<open>rnd i\<close> is the outcome of the test \<open>rand.Float64() < 0.5\<close> at the \<open>i\<close>-th draw of one
  insertion, and \<open>order level\<close> is the order in which the \<open>range\<close> loop of that insertion
  visits the table of \<open>level\<close> (an insertion reads each level at most once).
\<close>

function AddVector_loop ::
  "HNSW \<Rightarrow> (nat \<Rightarrow> bool) \<Rightarrow> (int \<Rightarrow> string list) \<Rightarrow> addr \<Rightarrow> int \<Rightarrow> nat \<Rightarrow> panic + HNSW" where
  \<comment> \<open>\<open>for level > 0 && rand.Float64() < 0.5 { level--; hnsw.addNodeToLevel(node, level) }\<close>\<close>
  "AddVector_loop h rnd order p level i =
     (if level > 0 \<and> rnd i then
        (case addNodeToLevel h (order (level - 1)) p (level - 1) of
           Inl e \<Rightarrow> Inl e
         | Inr h' \<Rightarrow> AddVector_loop h' rnd order p (level - 1) (i + 1))
      else Inr h)"
  by pat_completeness auto
termination
  by (relation "measure (\<lambda>(h, rnd, order, p, level, i). nat level)") auto

declare AddVector_loop.simps [simp del]

definition AddVector ::
  "HNSW \<Rightarrow> string \<Rightarrow> Vector \<Rightarrow> (nat \<Rightarrow> bool) \<Rightarrow> (int \<Rightarrow> string list) \<Rightarrow> panic + HNSW" where
  "AddVector h key vector rnd order =
     (let p = length (heap h);
          h = h\<lparr>heap := heap h @ [\<lparr>ID = key, Neighbors = [], Vector = vector\<rparr>]\<rparr>;
          level = MaxLevels h - 1
      in case addNodeToLevel h (order level) p level of
           Inl e \<Rightarrow> Inl e
         | Inr h \<Rightarrow>
             (case AddVector_loop h rnd order p level 0 of
                Inl e \<Rightarrow> Inl e
              | Inr h \<Rightarrow> Inr (h\<lparr>nodes := (nodes h)(key \<mapsto> p)\<rparr>)))"

function DeleteVector_loop :: "HNSW \<Rightarrow> string \<Rightarrow> nat \<Rightarrow> panic + HNSW" where
  \<comment> \<open>\<open>for i := 0; i < hnsw.MaxLevels; i++ { delete(hnsw.levels[i], id) }\<close>;
      \<open>delete\<close> on a nil map does nothing\<close>
  "DeleteVector_loop h key i =
     (if int i < MaxLevels h then
        (case level_table h (int i) of
           Inl e \<Rightarrow> Inl e
         | Inr t \<Rightarrow>
             DeleteVector_loop
               (h\<lparr>levels := (levels h)[i := map_option (\<lambda>m. m(key := None)) t]\<rparr>) key (i + 1))
      else Inr h)"
  by pat_completeness auto
termination
  by (relation "measure (\<lambda>(h, key, i). nat (MaxLevels h) - i)") auto

declare DeleteVector_loop.simps [simp del]

text \<open>A Go \<open>error\<close> result is \<open>None\<close> for nil and \<open>Some\<close> of the message otherwise.\<close>

definition DeleteVector :: "HNSW \<Rightarrow> string \<Rightarrow> panic + (HNSW \<times> string option)" where
  "DeleteVector h key =
     (case DeleteVector_loop h key 0 of
        Inl e \<Rightarrow> Inl e
      | Inr h \<Rightarrow> Inr (h\<lparr>nodes := (nodes h)(key := None)\<rparr>, None))"

definition UpdateVector ::
  "HNSW \<Rightarrow> string \<Rightarrow> Vector \<Rightarrow> (nat \<Rightarrow> bool) \<Rightarrow> (int \<Rightarrow> string list)
    \<Rightarrow> panic + (HNSW \<times> string option)" where
  "UpdateVector h key newVector rnd order =
     (case nodes h key of
        None \<Rightarrow> Inr (h, Some (''vector with id '' @ key @ '' not found''))
      | Some _ \<Rightarrow>
          (case DeleteVector h key of
             Inl e \<Rightarrow> Inl e
           | Inr (h, _) \<Rightarrow>
               (case AddVector h key newVector rnd order of
                  Inl e \<Rightarrow> Inl e
                | Inr h \<Rightarrow> Inr (h, None))))"

subsection \<open>NearestNeighbors\<close>

fun NearestNeighbors_range ::
  "HNSW \<Rightarrow> Vector \<Rightarrow> table \<Rightarrow> string list \<Rightarrow> string list \<Rightarrow> real list
    \<Rightarrow> panic + (string list \<times> real list)" where
  \<comment> \<open>the loop \<open>for _, node := range hnsw.levels[level]\<close> in the given order\<close>
  "NearestNeighbors_range h query m [] candidates distances = Inr (candidates, distances)"
| "NearestNeighbors_range h query m (key # order) candidates distances =
     (case m key of
        None \<Rightarrow> NearestNeighbors_range h query m order candidates distances
      | Some q \<Rightarrow>
          (case deref h q of
             Inl e \<Rightarrow> Inl e
           | Inr node \<Rightarrow>
               (case euclideanDistance query (Vector node) of
                  Inl e \<Rightarrow> Inl e
                | Inr d \<Rightarrow>
                    NearestNeighbors_range h query m order
                      (candidates @ [ID node]) (distances @ [d]))))"

function NearestNeighbors_best ::
  "HNSW \<Rightarrow> int \<Rightarrow> string list \<Rightarrow> real list \<Rightarrow> nat \<Rightarrow> Vector list \<Rightarrow> real list
    \<Rightarrow> panic + (Vector list \<times> real list)" where
  \<comment> \<open>\<open>for i := 0; i < k && i < len(candidates); i++ { node := hnsw.nodes[candidates[i]]; ... }\<close>;
      an absent key gives the nil pointer, and \<open>node.Vector\<close> then panics\<close>
  "NearestNeighbors_best h k candidates distances i bestNeighbors bestDistances =
     (if int i < k \<and> i < length candidates then
        (case nodes h (candidates ! i) of
           None \<Rightarrow> Inl NilPointerDereference
         | Some q \<Rightarrow>
             (case deref h q of
                Inl e \<Rightarrow> Inl e
              | Inr node \<Rightarrow>
                  NearestNeighbors_best h k candidates distances (i + 1)
                    (bestNeighbors @ [Vector node]) (bestDistances @ [distances ! i])))
      else Inr (bestNeighbors, bestDistances))"
  by pat_completeness auto
termination
  by (relation "measure (\<lambda>(h, k, candidates, distances, i, b, bd). length candidates - i)") auto

declare NearestNeighbors_best.simps [simp del]

function NearestNeighbors_levels ::
  "HNSW \<Rightarrow> (int \<Rightarrow> string list) \<Rightarrow> Vector \<Rightarrow> int \<Rightarrow> int \<Rightarrow> Vector list \<Rightarrow> real list
    \<Rightarrow> panic + (Vector list \<times> real list)" where
  \<comment> \<open>\<open>for level := hnsw.MaxLevels - 1; level >= 0; level-- { ... }\<close>, from the current level\<close>
  "NearestNeighbors_levels h order query k level bestNeighbors bestDistances =
     (if level \<ge> 0 then
        (case level_table h level of
           Inl e \<Rightarrow> Inl e
         | Inr t \<Rightarrow>
             (case NearestNeighbors_range h query (entries t) (order level) [] [] of
                Inl e \<Rightarrow> Inl e
              | Inr (candidates, distances) \<Rightarrow>
                  (case NearestNeighbors_best h k
                          (SliceStable candidates (\<lambda>i j. distances ! i < distances ! j))
                          distances 0 bestNeighbors bestDistances of
                     Inl e \<Rightarrow> Inl e
                   | Inr (bestNeighbors, bestDistances) \<Rightarrow>
                       NearestNeighbors_levels h order query k (level - 1)
                         bestNeighbors bestDistances)))
      else Inr (bestNeighbors, bestDistances))"
  by pat_completeness auto
termination
  by (relation "measure (\<lambda>(h, order, query, k, level, b, bd). nat (level + 1))") auto

declare NearestNeighbors_levels.simps [simp del]

definition NearestNeighbors ::
  "HNSW \<Rightarrow> (int \<Rightarrow> string list) \<Rightarrow> Vector \<Rightarrow> int \<Rightarrow> panic + Vector list" where
  \<comment> \<open>the final \<open>bestNeighbors[:k]\<close> panics on a negative \<open>k\<close>\<close>
  "NearestNeighbors h order query k =
     (case NearestNeighbors_levels h order query k (MaxLevels h - 1) [] [] of
        Inl e \<Rightarrow> Inl e
      | Inr (bestNeighbors, bestDistances) \<Rightarrow>
          if int (length bestNeighbors) > k then
            (if k < 0 then Inl SliceBoundsOutOfRange else Inr (take (nat k) bestNeighbors))
          else Inr bestNeighbors)"

section \<open>Notions used in the statements\<close>

text \<open>
  \<open>put_level h level p\<close> is the index after the assignment
  \<open>hnsw.levels[level][node.ID] = node\<close> of \<open>addNodeToLevel\<close> (with the table allocated),
  for the node at address \<open>p\<close>.
\<close>

definition put_level :: "HNSW \<Rightarrow> int \<Rightarrow> addr \<Rightarrow> HNSW" where
  "put_level h level p =
     h\<lparr>levels := (levels h)[nat level := Some ((entries (levels h ! nat level))(ID (heap h ! p) \<mapsto> p))]\<rparr>"

text \<open>
  An index is well formed when it has \<open>MaxLevels\<close> level tables and every entry of a
  table leads to an object of the store whose \<open>ID\<close> is the key of the entry.
\<close>

definition well_formed :: "HNSW \<Rightarrow> bool" where
  "well_formed h \<longleftrightarrow>
     MaxLevels h = int (length (levels h)) \<and>
     (\<forall>l < length (levels h). \<forall>key q. entries (levels h ! l) key = Some q \<longrightarrow>
         q < length (heap h) \<and> ID (heap h ! q) = key) \<and>
     (\<forall>key q. nodes h key = Some q \<longrightarrow> q < length (heap h) \<and> ID (heap h ! q) = key)"

text \<open>
  \<open>AddVector_top rnd level i\<close> is the level at which the promotion loop of \<open>AddVector\<close>
  stops when it starts at \<open>level\<close> with the draws \<open>rnd i\<close>, \<open>rnd (i + 1)\<close>, ...: the
  shallowest level the insertion reaches.
\<close>

function AddVector_top :: "(nat \<Rightarrow> bool) \<Rightarrow> int \<Rightarrow> nat \<Rightarrow> int" where
  "AddVector_top rnd level i =
     (if level > 0 \<and> rnd i then AddVector_top rnd (level - 1) (i + 1) else level)"
  by pat_completeness auto
termination
  by (relation "measure (\<lambda>(rnd, level, i). nat level)") auto

declare AddVector_top.simps [simp del]

text \<open>
  \<open>fits h skip v\<close>: the vector \<open>v\<close> has at most as many values as the vector of every node
  in a level table, the entry under the key \<open>skip\<close> (if any) excepted. This is what
  \<open>euclideanDistance v _\<close> needs in order not to read outside its second argument; it
  holds in particular when all vectors have one dimension.
\<close>

definition fits :: "HNSW \<Rightarrow> string option \<Rightarrow> Vector \<Rightarrow> bool" where
  "fits h skip v \<longleftrightarrow>
     (\<forall>l < length (levels h). \<forall>key q. entries (levels h ! l) key = Some q \<longrightarrow> Some key \<noteq> skip \<longrightarrow>
        length (Values v) \<le> length (Values (Vector (heap h ! q))))"

text \<open>
  The iteration orders of one insertion under \<open>key\<close>: when the \<open>range\<close> loop of
  \<open>findNeighbors\<close> reads the table of a level, the new node (at the next free address)
  has just been entered there.
\<close>

definition insertion_orders :: "HNSW \<Rightarrow> string \<Rightarrow> (int \<Rightarrow> string list) \<Rightarrow> bool" where
  "insertion_orders h key order \<longleftrightarrow>
     (\<forall>l < length (levels h).
        range_order ((entries (levels h ! l))(key \<mapsto> length (heap h))) (order (int l)))"

text \<open>
  The indexes that the public operations produce from \<open>NewHNSW maxNeighbors maxLevels\<close>.
  Only operations that return count: a panic ends the run.
\<close>

inductive reachable :: "int \<Rightarrow> int \<Rightarrow> HNSW \<Rightarrow> bool" for maxNeighbors maxLevels where
  new: "NewHNSW maxNeighbors maxLevels = Inr h \<Longrightarrow> reachable maxNeighbors maxLevels h"
| add: "reachable maxNeighbors maxLevels h \<Longrightarrow> insertion_orders h key order \<Longrightarrow>
        AddVector h key vector rnd order = Inr h' \<Longrightarrow> reachable maxNeighbors maxLevels h'"
| update: "reachable maxNeighbors maxLevels h \<Longrightarrow> insertion_orders h key order \<Longrightarrow>
        UpdateVector h key vector rnd order = Inr (h', e) \<Longrightarrow> reachable maxNeighbors maxLevels h'"
| delete: "reachable maxNeighbors maxLevels h \<Longrightarrow>
        DeleteVector h key = Inr (h', e) \<Longrightarrow> reachable maxNeighbors maxLevels h'"

text \<open>The invariant of the reachable indexes that the proofs below maintain.\<close>

definition consistent :: "HNSW \<Rightarrow> bool" where
  "consistent h \<longleftrightarrow>
     well_formed h \<and>
     (\<forall>l < length (levels h). \<forall>key. entries (levels h ! l) key \<noteq> None \<longrightarrow> nodes h key \<noteq> None) \<and>
     (\<forall>q < length (heap h).
        int (length (Neighbors (heap h ! q))) \<le> MaxNeighbors h \<and>
        ID (heap h ! q) \<notin> set (Neighbors (heap h ! q))) \<and>
     (heap h \<noteq> [] \<longrightarrow> 1 \<le> MaxLevels h)"

section \<open>Concrete indexes\<close>

text \<open>
  Points on the first axis of the plane, the query at the origin, and the two sequences
  of draws used below: \<open>never\<close> promotes no insertion, \<open>once\<close> promotes an insertion by
  one level.
\<close>

definition point :: "string \<Rightarrow> real \<Rightarrow> Vector" where
  "point name x = \<lparr>Vector_ID = name, Values = [x, 0]\<rparr>"

definition origin :: Vector where
  "origin = \<lparr>Vector_ID = ''query'', Values = [0, 0]\<rparr>"

definition never :: "nat \<Rightarrow> bool" where
  "never i \<longleftrightarrow> False"

definition once :: "nat \<Rightarrow> bool" where
  "once i \<longleftrightarrow> i = 0"

text \<open>
  \<open>line0\<close> is \<open>NewHNSW(5, 1)\<close>; \<open>line1\<close>, \<open>line2\<close> and \<open>line3\<close> are the indexes after
  \<open>AddVector("a", (10, 0))\<close>, then \<open>AddVector("b", (1, 0))\<close>, then \<open>AddVector("c", (5, 0))\<close>.
\<close>

definition line0 :: HNSW where
  "line0 = \<lparr>heap = [], nodes = Map.empty, levels = [None], MaxNeighbors = 5, MaxLevels = 1\<rparr>"

definition line1 :: HNSW where
  "line1 = \<lparr>heap = [\<lparr>ID = ''a'', Neighbors = [], Vector = point ''a'' 10\<rparr>],
            nodes = [''a'' \<mapsto> 0],
            levels = [Some [''a'' \<mapsto> 0]], MaxNeighbors = 5, MaxLevels = 1\<rparr>"

definition line2 :: HNSW where
  "line2 = \<lparr>heap = [\<lparr>ID = ''a'', Neighbors = [], Vector = point ''a'' 10\<rparr>,
                    \<lparr>ID = ''b'', Neighbors = [''a''], Vector = point ''b'' 1\<rparr>],
            nodes = [''a'' \<mapsto> 0, ''b'' \<mapsto> 1],
            levels = [Some [''a'' \<mapsto> 0, ''b'' \<mapsto> 1]], MaxNeighbors = 5, MaxLevels = 1\<rparr>"

definition line3 :: HNSW where
  "line3 = \<lparr>heap = [\<lparr>ID = ''a'', Neighbors = [], Vector = point ''a'' 10\<rparr>,
                    \<lparr>ID = ''b'', Neighbors = [''a''], Vector = point ''b'' 1\<rparr>,
                    \<lparr>ID = ''c'', Neighbors = [''b'', ''a''], Vector = point ''c'' 5\<rparr>],
            nodes = [''a'' \<mapsto> 0, ''b'' \<mapsto> 1, ''c'' \<mapsto> 2],
            levels = [Some [''a'' \<mapsto> 0, ''b'' \<mapsto> 1, ''c'' \<mapsto> 2]],
            MaxNeighbors = 5, MaxLevels = 1\<rparr>"

text \<open>
  \<open>tower0\<close> is \<open>NewHNSW(5, 2)\<close>; \<open>tower1\<close> is the index after \<open>AddVector("a", (10, 0))\<close>
  without promotion, and \<open>tower2\<close> the index after \<open>AddVector("b", (1, 0))\<close> promoted
  from level 1 to level 0. \<open>tower_order\<close> lists the keys of the two levels as that
  second insertion finds them.
\<close>

definition tower0 :: HNSW where
  "tower0 = \<lparr>heap = [], nodes = Map.empty, levels = [None, None],
             MaxNeighbors = 5, MaxLevels = 2\<rparr>"

definition tower1 :: HNSW where
  "tower1 = \<lparr>heap = [\<lparr>ID = ''a'', Neighbors = [], Vector = point ''a'' 10\<rparr>],
             nodes = [''a'' \<mapsto> 0],
             levels = [None, Some [''a'' \<mapsto> 0]], MaxNeighbors = 5, MaxLevels = 2\<rparr>"

definition tower2 :: HNSW where
  "tower2 = \<lparr>heap = [\<lparr>ID = ''a'', Neighbors = [], Vector = point ''a'' 10\<rparr>,
                     \<lparr>ID = ''b'', Neighbors = [], Vector = point ''b'' 1\<rparr>],
             nodes = [''a'' \<mapsto> 0, ''b'' \<mapsto> 1],
             levels = [Some [''b'' \<mapsto> 1], Some [''a'' \<mapsto> 0, ''b'' \<mapsto> 1]],
             MaxNeighbors = 5, MaxLevels = 2\<rparr>"

definition tower_order :: "int \<Rightarrow> string list" where
  "tower_order level = (if level = 1 then [''a'', ''b''] else [''b''])"

text \<open>\<open>flat0\<close> is \<open>NewHNSW(5, 0)\<close>: an index with no level at all.\<close>

definition flat0 :: HNSW where
  "flat0 = \<lparr>heap = [], nodes = Map.empty, levels = [], MaxNeighbors = 5, MaxLevels = 0\<rparr>"

section \<open>The library sort permutes the slice\<close>

lemma Swap_mset: "mset (Swap xs ij) = mset xs"
  by (cases ij) (simp add: Swap_def mset_swap)

lemma foldl_Swap_mset: "mset (foldl Swap xs sw) = mset xs"
  by (induction sw arbitrary: xs) (simp_all add: Swap_mset)

lemma SliceStable_mset: "mset (SliceStable x lt) = mset x"
  by (simp add: SliceStable_def foldl_Swap_mset)

lemma SliceStable_set: "set (SliceStable x lt) = set x"
  using SliceStable_mset [of x lt] by (metis set_mset_mset)

lemma SliceStable_length: "length (SliceStable x lt) = length x"
  using SliceStable_mset [of x lt] by (metis size_mset)

lemma euclideanDistance_loop_eq:
  "i \<le> length v1 \<Longrightarrow> i \<le> length v2 \<Longrightarrow>
   euclideanDistance_loop v1 v2 i acc =
     (if length v2 < length v1 then Inl IndexOutOfRange
      else Inr (acc + sum_list (map (\<lambda>(x, y). (x - y) * (x - y)) (zip (drop i v1) (drop i v2)))))"
proof (induction v1 v2 i acc rule: euclideanDistance_loop.induct)
  case (1 v1 v2 i acc)
  show ?case
  proof (cases "i < length v1")
    case False
    with 1(2,3) show ?thesis
      by (subst euclideanDistance_loop.simps) simp
  next
    case True
    show ?thesis
    proof (cases "i < length v2")
      case False
      with True show ?thesis
        by (subst euclideanDistance_loop.simps) simp
    next
      case v2: True
      have d1: "drop i v1 = v1 ! i # drop (i + 1) v1"
        using True by (simp add: Cons_nth_drop_Suc)
      have d2: "drop i v2 = v2 ! i # drop (i + 1) v2"
        using v2 by (simp add: Cons_nth_drop_Suc)
      have "euclideanDistance_loop v1 v2 i acc =
            euclideanDistance_loop v1 v2 (i + 1) (acc + (v1 ! i - v2 ! i) * (v1 ! i - v2 ! i))"
        using True v2 by (subst euclideanDistance_loop.simps) (simp add: Let_def)
      also have "\<dots> = (if length v2 < length v1 then Inl IndexOutOfRange
          else Inr (acc + (v1 ! i - v2 ! i) * (v1 ! i - v2 ! i) +
             sum_list (map (\<lambda>(x, y). (x - y) * (x - y)) (zip (drop (i + 1) v1) (drop (i + 1) v2)))))"
        using True v2 by (intro "1.IH") simp_all
      finally show ?thesis
        by (simp add: d1 d2)
    qed
  qed
qed

lemma euclideanDistance_eq:
  "euclideanDistance v1 v2 =
     (if length (Values v2) < length (Values v1) then Inl IndexOutOfRange
      else Inr (sqrt (sum_list (map (\<lambda>(x, y). (x - y) * (x - y)) (zip (Values v1) (Values v2))))))"
  by (simp add: euclideanDistance_def euclideanDistance_loop_eq)

section \<open>Reading the store and the level tables\<close>

lemma deref_Inr: "deref h p = Inr node \<longleftrightarrow> p < length (heap h) \<and> node = heap h ! p"
  by (auto simp: deref_def)

lemma deref_Inl: "deref h p = Inl e \<longleftrightarrow> \<not> p < length (heap h) \<and> e = NilPointerDereference"
  by (auto simp: deref_def)

lemma deref_valid: "p < length (heap h) \<Longrightarrow> deref h p = Inr (heap h ! p)"
  by (simp add: deref_def)

lemma level_table_Inr:
  "level_table h level = Inr t \<longleftrightarrow>
     0 \<le> level \<and> level < int (length (levels h)) \<and> t = levels h ! nat level"
  by (auto simp: level_table_def)

lemma level_table_Inl:
  "level_table h level = Inl e \<longleftrightarrow>
     \<not> (0 \<le> level \<and> level < int (length (levels h))) \<and> e = IndexOutOfRange"
  by (auto simp: level_table_def)

lemma findNeighbors_range_keys:
  "findNeighbors_range h p m order ns ds = Inr (ns', ds') \<Longrightarrow>
   set ns' \<subseteq> set ns \<union> {key \<in> set order. key \<in> dom m \<and> key \<noteq> ID (heap h ! p)}"
proof (induction order arbitrary: ns ds)
  case Nil
  then show ?case by simp
next
  case (Cons key order)
  show ?case
  proof (cases "m key")
    case None
    with Cons.prems have "findNeighbors_range h p m order ns ds = Inr (ns', ds')" by simp
    from Cons.IH [OF this] show ?thesis by auto
  next
    case (Some q)
    show ?thesis
    proof (cases "ID (heap h ! p) = key")
      case True
      with Some Cons.prems have "findNeighbors_range h p m order ns ds = Inr (ns', ds')"
        by (simp add: deref_def split: if_splits)
      from Cons.IH [OF this] show ?thesis by auto
    next
      case False
      with Some Cons.prems obtain d where
        "findNeighbors_range h p m order (ns @ [key]) (ds @ [d]) = Inr (ns', ds')"
        by (auto simp: deref_def split: if_splits sum.splits)
      from Cons.IH [OF this] False Some show ?thesis by auto
    qed
  qed
qed

lemma findNeighbors_range_returns:
  assumes "p < length (heap h)"
    and "\<And>key q. key \<in> set order \<Longrightarrow> m key = Some q \<Longrightarrow> key \<noteq> ID (heap h ! p) \<Longrightarrow>
           q < length (heap h) \<and>
           length (Values (Vector (heap h ! p))) \<le> length (Values (Vector (heap h ! q)))"
  shows "\<exists>r. findNeighbors_range h p m order ns ds = Inr r"
  using assms(2)
proof (induction order arbitrary: ns ds)
  case Nil
  then show ?case by simp
next
  case (Cons key order)
  have IH: "\<exists>r. findNeighbors_range h p m order ns' ds' = Inr r" for ns' ds'
    by (rule Cons.IH) (use Cons.prems in auto)
  show ?case
  proof (cases "m key")
    case None
    then show ?thesis using IH by simp
  next
    case (Some q)
    show ?thesis
    proof (cases "ID (heap h ! p) = key")
      case True
      then show ?thesis using Some IH assms(1) by (simp add: deref_valid)
    next
      case False
      with Cons.prems [of key q] Some
      have q: "q < length (heap h)"
        and len: "length (Values (Vector (heap h ! p))) \<le> length (Values (Vector (heap h ! q)))"
        by auto
      show ?thesis
        using Some False q len IH assms(1)
        by (simp add: deref_valid euclideanDistance_eq)
    qed
  qed
qed

lemma findNeighbors_range_cong:
  assumes "map (\<lambda>n. (ID n, Vector n)) (heap h1) = map (\<lambda>n. (ID n, Vector n)) (heap h2)"
  shows "findNeighbors_range h1 p m order ns ds = findNeighbors_range h2 p m order ns ds"
proof -
  have len: "length (heap h1) = length (heap h2)"
    using assms by (metis length_map)
  have same: "ID (heap h1 ! q) = ID (heap h2 ! q) \<and> Vector (heap h1 ! q) = Vector (heap h2 ! q)"
    if "q < length (heap h1)" for q
  proof -
    have "map (\<lambda>n. (ID n, Vector n)) (heap h1) ! q = map (\<lambda>n. (ID n, Vector n)) (heap h2) ! q"
      using assms by simp
    with that len show ?thesis by simp
  qed
  show ?thesis
  proof (induction order arbitrary: ns ds)
    case Nil
    show ?case by simp
  next
    case (Cons key order)
    show ?case
      using len same
      by (auto simp: Cons.IH deref_def split: option.splits sum.splits)
  qed
qed

lemma findNeighbors_bounds:
  assumes "findNeighbors h order p level = Inr ns"
  shows "int (length ns) \<le> MaxNeighbors h"
    and "ID (heap h ! p) \<notin> set ns"
    and "set ns \<subseteq> dom (entries (levels h ! nat level))"
proof -
  from assms obtain ns0 ds0 where
    r: "findNeighbors_range h p (entries (levels h ! nat level)) order [] [] = Inr (ns0, ds0)"
    and ns: "ns = (let s = SliceStable ns0 (\<lambda>i j. ds0 ! i < ds0 ! j)
                   in if int (length s) > MaxNeighbors h then take (nat (MaxNeighbors h)) s else s)"
    and ok: "int (length ns0) > MaxNeighbors h \<longrightarrow> 0 \<le> MaxNeighbors h"
    by (auto simp: findNeighbors_def level_table_def Let_def SliceStable_length
        split: sum.splits if_splits prod.splits)
  from findNeighbors_range_keys [OF r]
  have keys: "set ns0 \<subseteq> {key. key \<in> dom (entries (levels h ! nat level)) \<and> key \<noteq> ID (heap h ! p)}"
    by auto
  have sub: "set ns \<subseteq> set ns0"
    using ns by (auto simp: Let_def SliceStable_set dest: in_set_takeD split: if_splits)
  show "int (length ns) \<le> MaxNeighbors h"
    using ns ok by (auto simp: Let_def SliceStable_length)
  show "ID (heap h ! p) \<notin> set ns"
    using sub keys by auto
  show "set ns \<subseteq> dom (entries (levels h ! nat level))"
    using sub keys by auto
qed

section \<open>addNodeToLevel\<close>

lemma addNodeToLevel_eq:
  "addNodeToLevel h order p level =
     (if 0 \<le> level \<and> level < int (length (levels h)) then
        if p < length (heap h) then
          (case findNeighbors (put_level h level p) order p level of
             Inl e \<Rightarrow> Inl e
           | Inr ns \<Rightarrow>
               Inr ((put_level h level p)\<lparr>heap := (heap h)[p := (heap h ! p)\<lparr>Neighbors := ns\<rparr>]\<rparr>))
        else Inl NilPointerDereference
      else Inl IndexOutOfRange)"
  by (cases "levels h ! nat level")
     (auto simp add: addNodeToLevel_def level_table_def deref_def put_level_def entries_def Let_def
        split: sum.splits)

lemma addNodeToLevel_InrE:
  assumes "addNodeToLevel h order p level = Inr h'"
  obtains ns where "0 \<le> level" and "level < int (length (levels h))" and "p < length (heap h)"
    and "findNeighbors (put_level h level p) order p level = Inr ns"
    and "h' = (put_level h level p)\<lparr>heap := (heap h)[p := (heap h ! p)\<lparr>Neighbors := ns\<rparr>]\<rparr>"
  using assms unfolding addNodeToLevel_eq
  by (auto split: if_splits sum.splits)

lemma put_level_simps [simp]:
  "heap (put_level h level p) = heap h"
  "nodes (put_level h level p) = nodes h"
  "MaxNeighbors (put_level h level p) = MaxNeighbors h"
  "MaxLevels (put_level h level p) = MaxLevels h"
  "length (levels (put_level h level p)) = length (levels h)"
  by (simp_all add: put_level_def)

lemma put_level_entries:
  "l < length (levels h) \<Longrightarrow>
   entries (levels (put_level h level p) ! l) =
     (if l = nat level then (entries (levels h ! l))(ID (heap h ! p) \<mapsto> p) else entries (levels h ! l))"
  by (simp add: put_level_def nth_list_update entries_def)

lemma findNeighbors_cong:
  assumes "map (\<lambda>n. (ID n, Vector n)) (heap h1) = map (\<lambda>n. (ID n, Vector n)) (heap h2)"
    and "MaxNeighbors h1 = MaxNeighbors h2"
    and "length (levels h1) = length (levels h2)"
    and "levels h1 ! nat level = levels h2 ! nat level"
  shows "findNeighbors h1 order p level = findNeighbors h2 order p level"
  unfolding findNeighbors_def level_table_def assms(2-4) findNeighbors_range_cong [OF assms(1)]
  by (rule refl)

lemma addNodeToLevel_frame:
  assumes "addNodeToLevel h order p level = Inr h'"
  shows "nodes h' = nodes h" and "MaxNeighbors h' = MaxNeighbors h" and "MaxLevels h' = MaxLevels h"
    and "length (levels h') = length (levels h)" and "length (heap h') = length (heap h)"
    and "0 \<le> level" and "level < int (length (levels h))" and "p < length (heap h)"
    and "\<And>q. ID (heap h' ! q) = ID (heap h ! q)"
    and "\<And>q. Vector (heap h' ! q) = Vector (heap h ! q)"
    and "\<And>q. q \<noteq> p \<Longrightarrow> heap h' ! q = heap h ! q"
    and "\<And>l. l < length (levels h) \<Longrightarrow> entries (levels h' ! l) =
           (if l = nat level then (entries (levels h ! l))(ID (heap h ! p) \<mapsto> p)
            else entries (levels h ! l))"
    and "int (length (Neighbors (heap h' ! p))) \<le> MaxNeighbors h"
    and "ID (heap h ! p) \<notin> set (Neighbors (heap h' ! p))"
    and "findNeighbors h' order p level = Inr (Neighbors (heap h' ! p))"
proof -
  from assms obtain ns where lv: "0 \<le> level" "level < int (length (levels h))"
    and p: "p < length (heap h)"
    and fn: "findNeighbors (put_level h level p) order p level = Inr ns"
    and h': "h' = (put_level h level p)\<lparr>heap := (heap h)[p := (heap h ! p)\<lparr>Neighbors := ns\<rparr>]\<rparr>"
    by (rule addNodeToLevel_InrE)
  show "nodes h' = nodes h" "MaxNeighbors h' = MaxNeighbors h" "MaxLevels h' = MaxLevels h"
    "length (levels h') = length (levels h)" "length (heap h') = length (heap h)"
    by (simp_all add: h')
  show "0 \<le> level" "level < int (length (levels h))" "p < length (heap h)"
    by (fact lv p)+
  show "ID (heap h' ! q) = ID (heap h ! q)" for q
    using p by (cases "q = p") (simp_all add: h')
  show "Vector (heap h' ! q) = Vector (heap h ! q)" for q
    using p by (cases "q = p") (simp_all add: h')
  show "q \<noteq> p \<Longrightarrow> heap h' ! q = heap h ! q" for q
    by (simp add: h')
  show "entries (levels h' ! l) =
           (if l = nat level then (entries (levels h ! l))(ID (heap h ! p) \<mapsto> p)
            else entries (levels h ! l))" if "l < length (levels h)" for l
    using put_level_entries [OF that, of level p] by (simp add: h')
  have nb: "Neighbors (heap h' ! p) = ns"
    using p by (simp add: h')
  from findNeighbors_bounds(1,2) [OF fn]
  show "int (length (Neighbors (heap h' ! p))) \<le> MaxNeighbors h"
    and "ID (heap h ! p) \<notin> set (Neighbors (heap h' ! p))"
    by (simp_all add: nb)
  have "findNeighbors h' order p level = findNeighbors (put_level h level p) order p level"
  proof (rule findNeighbors_cong)
    show "map (\<lambda>n. (ID n, Vector n)) (heap h') = map (\<lambda>n. (ID n, Vector n)) (heap (put_level h level p))"
      using p by (simp add: h' map_update list_update_same_conv)
  qed (simp_all add: h')
  then show "findNeighbors h' order p level = Inr (Neighbors (heap h' ! p))"
    by (simp add: fn nb)
qed

lemma addNodeToLevel_well_formed:
  assumes "addNodeToLevel h order p level = Inr h'" and "well_formed h"
  shows "well_formed h'"
proof -
  note f = addNodeToLevel_frame [OF assms(1)]
  have 1: "MaxLevels h' = int (length (levels h'))"
    using assms(2) by (simp add: f well_formed_def)
  have 2: "q < length (heap h') \<and> ID (heap h' ! q) = key"
    if l: "l < length (levels h')" and e: "entries (levels h' ! l) key = Some q" for l key q
  proof -
    from l have l': "l < length (levels h)" by (simp add: f)
    from e f(12) [OF l'] have "q = p \<and> key = ID (heap h ! p) \<or> entries (levels h ! l) key = Some q"
      by (auto split: if_splits)
    then show ?thesis
      using assms(2) l' f(8) by (auto simp: f(5,9) well_formed_def)
  qed
  have 3: "q < length (heap h') \<and> ID (heap h' ! q) = key" if "nodes h' key = Some q" for key q
    using that assms(2) by (auto simp: f(1,5,9) well_formed_def)
  from 1 2 3 show ?thesis
    unfolding well_formed_def by blast
qed

section \<open>The promotion loop of AddVector\<close>

lemma AddVector_top_le: "AddVector_top rnd level i \<le> level"
  by (induction rnd level i rule: AddVector_top.induct)
     (subst AddVector_top.simps, auto)

lemma AddVector_top_nonneg: "0 \<le> level \<Longrightarrow> 0 \<le> AddVector_top rnd level i"
  by (induction rnd level i rule: AddVector_top.induct)
     (subst AddVector_top.simps, auto)

lemma AddVector_loop_rule:
  assumes "AddVector_loop h rnd order p level i = Inr h'"
    and "P h level"
    and "\<And>h l h1. P h l \<Longrightarrow> l > 0 \<Longrightarrow> addNodeToLevel h (order (l - 1)) p (l - 1) = Inr h1
            \<Longrightarrow> P h1 (l - 1)"
  shows "P h' (AddVector_top rnd level i)"
  using assms
proof (induction h rnd order p level i rule: AddVector_loop.induct)
  case (1 h rnd order p level i)
  show ?case
  proof (cases "level > 0 \<and> rnd i")
    case False
    with "1.prems" show ?thesis
      by (subst AddVector_top.simps, subst (asm) AddVector_loop.simps) auto
  next
    case True
    with "1.prems"(1) obtain h1 where
      a: "addNodeToLevel h (order (level - 1)) p (level - 1) = Inr h1"
      and l: "AddVector_loop h1 rnd order p (level - 1) (i + 1) = Inr h'"
      by (subst (asm) AddVector_loop.simps) (auto split: sum.splits)
    have "P h1 (level - 1)"
      using "1.prems"(3) [OF "1.prems"(2) _ a] True by simp
    from "1.IH" [OF True a l this "1.prems"(3)] True show ?thesis
      by (subst AddVector_top.simps) simp
  qed
qed

lemma AddVector_loop_frame:
  assumes "AddVector_loop h rnd order p level i = Inr h'"
  defines "t \<equiv> AddVector_top rnd level i"
  shows "nodes h' = nodes h" and "MaxNeighbors h' = MaxNeighbors h" and "MaxLevels h' = MaxLevels h"
    and "length (levels h') = length (levels h)" and "length (heap h') = length (heap h)"
    and "\<And>q. ID (heap h' ! q) = ID (heap h ! q)"
    and "\<And>q. Vector (heap h' ! q) = Vector (heap h ! q)"
    and "\<And>q. q \<noteq> p \<Longrightarrow> heap h' ! q = heap h ! q"
    and "\<And>l. l < length (levels h) \<Longrightarrow> entries (levels h' ! l) =
           (if nat t \<le> l \<and> l < nat level then (entries (levels h ! l))(ID (heap h ! p) \<mapsto> p)
            else entries (levels h ! l))"
proof -
  let ?P = "\<lambda>h1 l. nodes h1 = nodes h \<and> MaxNeighbors h1 = MaxNeighbors h \<and> MaxLevels h1 = MaxLevels h
      \<and> length (levels h1) = length (levels h) \<and> length (heap h1) = length (heap h)
      \<and> (\<forall>q. ID (heap h1 ! q) = ID (heap h ! q)) \<and> (\<forall>q. Vector (heap h1 ! q) = Vector (heap h ! q))
      \<and> (\<forall>q. q \<noteq> p \<longrightarrow> heap h1 ! q = heap h ! q)
      \<and> l \<le> level
      \<and> (\<forall>lv < length (levels h). entries (levels h1 ! lv) =
           (if nat l \<le> lv \<and> lv < nat level then (entries (levels h ! lv))(ID (heap h ! p) \<mapsto> p)
            else entries (levels h ! lv)))"
  have "?P h' (AddVector_top rnd level i)"
  proof (rule AddVector_loop_rule [OF assms(1), where P = ?P], goal_cases)
    case 1
    show ?case by auto
  next
    case (2 h1 l h2)
    note f = addNodeToLevel_frame [OF 2(3)]
    have ent: "entries (levels h2 ! lv) =
           (if nat (l - 1) \<le> lv \<and> lv < nat level then (entries (levels h ! lv))(ID (heap h ! p) \<mapsto> p)
            else entries (levels h ! lv))" if lv: "lv < length (levels h)" for lv
    proof -
      from lv 2(1) have "lv < length (levels h1)" by simp
      from f(12) [OF this] 2(1,2) lv show ?thesis
        by (auto simp: nat_diff_distrib split: if_splits)
    qed
    from 2(1) f(1-5,9,10,11) ent show ?case
      by auto
  qed
  then show "nodes h' = nodes h" and "MaxNeighbors h' = MaxNeighbors h" and "MaxLevels h' = MaxLevels h"
    and "length (levels h') = length (levels h)" and "length (heap h') = length (heap h)"
    and "\<And>q. ID (heap h' ! q) = ID (heap h ! q)"
    and "\<And>q. Vector (heap h' ! q) = Vector (heap h ! q)"
    and "\<And>q. q \<noteq> p \<Longrightarrow> heap h' ! q = heap h ! q"
    and "\<And>l. l < length (levels h) \<Longrightarrow> entries (levels h' ! l) =
           (if nat t \<le> l \<and> l < nat level then (entries (levels h ! l))(ID (heap h ! p) \<mapsto> p)
            else entries (levels h ! l))"
    unfolding t_def by blast+
qed

lemma AddVector_loop_well_formed:
  assumes "AddVector_loop h rnd order p level i = Inr h'" and "well_formed h"
  shows "well_formed h'"
  by (rule AddVector_loop_rule [OF assms(1), where P = "\<lambda>h l. well_formed h"])
     (auto intro: assms(2) addNodeToLevel_well_formed)

lemma AddVector_loop_neighbors:
  assumes "AddVector_loop h rnd order p level i = Inr h'"
    and "int (length (Neighbors (heap h ! p))) \<le> MaxNeighbors h"
    and "ID (heap h ! p) \<notin> set (Neighbors (heap h ! p))"
    and "findNeighbors h (order level) p level = Inr (Neighbors (heap h ! p))"
  shows "int (length (Neighbors (heap h' ! p))) \<le> MaxNeighbors h'"
    and "ID (heap h' ! p) \<notin> set (Neighbors (heap h' ! p))"
    and "findNeighbors h' (order (AddVector_top rnd level i)) p (AddVector_top rnd level i)
           = Inr (Neighbors (heap h' ! p))"
proof -
  let ?P = "\<lambda>h l. int (length (Neighbors (heap h ! p))) \<le> MaxNeighbors h
     \<and> ID (heap h ! p) \<notin> set (Neighbors (heap h ! p))
     \<and> findNeighbors h (order l) p l = Inr (Neighbors (heap h ! p))"
  have "?P h' (AddVector_top rnd level i)"
  proof (rule AddVector_loop_rule [OF assms(1), where P = ?P], goal_cases)
    case 1
    show ?case using assms(2-4) by simp
  next
    case (2 h1 l h2)
    note f = addNodeToLevel_frame [OF 2(3)]
    from f(13,14,15) show ?case by (simp add: f(2,9))
  qed
  then show "int (length (Neighbors (heap h' ! p))) \<le> MaxNeighbors h'"
    and "ID (heap h' ! p) \<notin> set (Neighbors (heap h' ! p))"
    and "findNeighbors h' (order (AddVector_top rnd level i)) p (AddVector_top rnd level i)
           = Inr (Neighbors (heap h' ! p))"
    by blast+
qed

section \<open>AddVector\<close>

lemma AddVector_InrE:
  assumes "AddVector h key vector rnd order = Inr h'"
  obtains h1 h2 where
    "addNodeToLevel (h\<lparr>heap := heap h @ [\<lparr>ID = key, Neighbors = [], Vector = vector\<rparr>]\<rparr>)
        (order (MaxLevels h - 1)) (length (heap h)) (MaxLevels h - 1) = Inr h1"
    and "AddVector_loop h1 rnd order (length (heap h)) (MaxLevels h - 1) 0 = Inr h2"
    and "h' = h2\<lparr>nodes := (nodes h2)(key \<mapsto> length (heap h))\<rparr>"
  using assms unfolding AddVector_def Let_def
  by (auto split: sum.splits)

lemma AddVector_effect:
  assumes "AddVector h key vector rnd order = Inr h'"
  defines "p \<equiv> length (heap h)"
    and "bottom \<equiv> MaxLevels h - 1"
  defines "t \<equiv> AddVector_top rnd bottom 0"
  shows "0 \<le> bottom" and "bottom < int (length (levels h))"
    and "nodes h' = (nodes h)(key \<mapsto> p)"
    and "MaxNeighbors h' = MaxNeighbors h" and "MaxLevels h' = MaxLevels h"
    and "length (levels h') = length (levels h)" and "length (heap h') = Suc (length (heap h))"
    and "\<And>q. q < length (heap h) \<Longrightarrow> heap h' ! q = heap h ! q"
    and "ID (heap h' ! p) = key" and "Vector (heap h' ! p) = vector"
    and "\<And>l. l < length (levels h) \<Longrightarrow> entries (levels h' ! l) =
           (if nat t \<le> l \<and> l \<le> nat bottom then (entries (levels h ! l))(key \<mapsto> p)
            else entries (levels h ! l))"
    and "int (length (Neighbors (heap h' ! p))) \<le> MaxNeighbors h"
    and "key \<notin> set (Neighbors (heap h' ! p))"
    and "findNeighbors h' (order t) p t = Inr (Neighbors (heap h' ! p))"
    and "0 \<le> t" and "t \<le> bottom"
proof -
  define h0 where "h0 = h\<lparr>heap := heap h @ [\<lparr>ID = key, Neighbors = [], Vector = vector\<rparr>]\<rparr>"
  from assms(1) obtain h1 h2 where
    a: "addNodeToLevel h0 (order bottom) p bottom = Inr h1"
    and l: "AddVector_loop h1 rnd order p bottom 0 = Inr h2"
    and h': "h' = h2\<lparr>nodes := (nodes h2)(key \<mapsto> p)\<rparr>"
    unfolding h0_def p_def bottom_def by (rule AddVector_InrE)
  note fa = addNodeToLevel_frame [OF a]
  note fl = AddVector_loop_frame [OF l, folded t_def]
  note nl = AddVector_loop_neighbors [OF l, folded t_def]
  have h0: "heap h0 ! p = \<lparr>ID = key, Neighbors = [], Vector = vector\<rparr>" "levels h0 = levels h"
    "nodes h0 = nodes h" "MaxNeighbors h0 = MaxNeighbors h" "MaxLevels h0 = MaxLevels h"
    "length (heap h0) = Suc p"
    by (simp_all add: h0_def p_def)
  have h0_old: "heap h0 ! q = heap h ! q" if "q < length (heap h)" for q
    using that by (simp add: h0_def nth_append)
  show "0 \<le> bottom" "bottom < int (length (levels h))"
    using fa(6,7) by (simp_all add: h0)
  show "nodes h' = (nodes h)(key \<mapsto> p)"
    by (simp add: h' fl fa h0)
  show "MaxNeighbors h' = MaxNeighbors h" "MaxLevels h' = MaxLevels h"
    "length (levels h') = length (levels h)" "length (heap h') = Suc (length (heap h))"
    by (simp_all add: h' fl fa h0 p_def [symmetric])
  show "heap h' ! q = heap h ! q" if "q < length (heap h)" for q
  proof -
    from that have "q \<noteq> p" by (simp add: p_def)
    then show ?thesis
      using that by (simp add: h' fl(8) fa(11) h0_old)
  qed
  show "ID (heap h' ! p) = key" "Vector (heap h' ! p) = vector"
    by (simp_all add: h' fl(6,7) fa(9,10) h0)
  show "entries (levels h' ! l) =
           (if nat t \<le> l \<and> l \<le> nat bottom then (entries (levels h ! l))(key \<mapsto> p)
            else entries (levels h ! l))" if "l < length (levels h)" for l
  proof -
    from that have l1: "l < length (levels h1)" and l0: "l < length (levels h0)"
      by (simp_all add: fa h0)
    have t: "t \<le> bottom"
      unfolding t_def by (rule AddVector_top_le)
    have "l = nat bottom \<or> nat t \<le> l \<and> l < nat bottom \<longleftrightarrow> nat t \<le> l \<and> l \<le> nat bottom"
      using t by auto
    then show ?thesis
      using fl(9) [OF l1] fa(12) [OF l0] by (auto simp: h' fa(9) h0)
  qed
  have 1: "int (length (Neighbors (heap h1 ! p))) \<le> MaxNeighbors h1"
    and 2: "ID (heap h1 ! p) \<notin> set (Neighbors (heap h1 ! p))"
    and 3: "findNeighbors h1 (order bottom) p bottom = Inr (Neighbors (heap h1 ! p))"
    using fa(13,14,15) by (simp_all add: fa(2,9))
  from nl(1,2) [OF 1 2 3]
  show "int (length (Neighbors (heap h' ! p))) \<le> MaxNeighbors h"
    and "key \<notin> set (Neighbors (heap h' ! p))"
    by (simp_all add: h' fl fa h0)
  have "findNeighbors h' (order t) p t = findNeighbors h2 (order t) p t"
    by (rule findNeighbors_cong) (simp_all add: h')
  with nl(3) [OF 1 2 3] show "findNeighbors h' (order t) p t = Inr (Neighbors (heap h' ! p))"
    by (simp add: h')
  show "t \<le> bottom"
    unfolding t_def by (rule AddVector_top_le)
  show "0 \<le> t"
    unfolding t_def by (rule AddVector_top_nonneg) fact
qed

lemma AddVector_well_formed:
  assumes "AddVector h key vector rnd order = Inr h'" and "well_formed h"
  shows "well_formed h'"
proof -
  note e = AddVector_effect [OF assms(1)]
  have 1: "MaxLevels h' = int (length (levels h'))"
    using assms(2) by (simp add: e well_formed_def)
  have 2: "q < length (heap h') \<and> ID (heap h' ! q) = k"
    if l: "l < length (levels h')" and en: "entries (levels h' ! l) k = Some q" for l k q
  proof -
    from l have l': "l < length (levels h)" by (simp add: e)
    from en e(11) [OF l']
    have "q = length (heap h) \<and> k = key \<or> entries (levels h ! l) k = Some q"
      by (auto split: if_splits)
    then show ?thesis
    proof
      assume "q = length (heap h) \<and> k = key"
      then show ?thesis using e(7,9) by auto
    next
      assume "entries (levels h ! l) k = Some q"
      with assms(2) l' have "q < length (heap h) \<and> ID (heap h ! q) = k"
        by (auto simp: well_formed_def)
      then show ?thesis by (simp add: e)
    qed
  qed
  have 3: "q < length (heap h') \<and> ID (heap h' ! q) = k" if n: "nodes h' k = Some q" for k q
  proof (cases "k = key")
    case True
    with n have "q = length (heap h)" by (simp add: e)
    with True show ?thesis by (simp add: e(7,9))
  next
    case False
    with n have "nodes h k = Some q" by (simp add: e)
    with assms(2) have "q < length (heap h) \<and> ID (heap h ! q) = k"
      by (auto simp: well_formed_def)
    then show ?thesis by (simp add: e)
  qed
  from 1 2 3 show ?thesis
    unfolding well_formed_def by blast
qed

lemma AddVector_consistent:
  assumes "AddVector h key vector rnd order = Inr h'" and "consistent h"
  shows "consistent h'"
proof -
  note e = AddVector_effect [OF assms(1)]
  from assms(2) have wf: "well_formed h" by (simp add: consistent_def)
  have 1: "well_formed h'"
    using assms(1) wf by (rule AddVector_well_formed)
  have 2: "nodes h' k \<noteq> None"
    if l: "l < length (levels h')" and en: "entries (levels h' ! l) k \<noteq> None" for l k
  proof (cases "k = key")
    case True
    then show ?thesis by (simp add: e)
  next
    case False
    from l have l': "l < length (levels h)" by (simp add: e)
    from en e(11) [OF l'] False have "entries (levels h ! l) k \<noteq> None"
      by (auto split: if_splits)
    with assms(2) l' have "nodes h k \<noteq> None"
      by (auto simp: consistent_def)
    with False show ?thesis by (simp add: e)
  qed
  have 3: "int (length (Neighbors (heap h' ! q))) \<le> MaxNeighbors h' \<and>
           ID (heap h' ! q) \<notin> set (Neighbors (heap h' ! q))" if q: "q < length (heap h')" for q
  proof (cases "q < length (heap h)")
    case True
    with assms(2) show ?thesis by (simp add: e consistent_def)
  next
    case False
    with q have "q = length (heap h)" by (simp add: e)
    then show ?thesis using e(12,13) by (simp add: e)
  qed
  have 4: "1 \<le> MaxLevels h'"
    using e(1) by (simp add: e)
  from 1 2 3 4 show ?thesis
    unfolding consistent_def by blast
qed

section \<open>DeleteVector\<close>

lemma DeleteVector_loop_eq:
  "MaxLevels h = int (length (levels h)) \<Longrightarrow> i \<le> length (levels h) \<Longrightarrow>
   DeleteVector_loop h key i =
     Inr (h\<lparr>levels := take i (levels h)
                @ map (map_option (\<lambda>m. m(key := None))) (drop i (levels h))\<rparr>)"
proof (induction h key i rule: DeleteVector_loop.induct)
  case (1 h key i)
  define f :: "table option \<Rightarrow> table option" where "f = map_option (\<lambda>m. m(key := None))"
  show ?case
  proof (cases "int i < MaxLevels h")
    case False
    with "1.prems" have "i = length (levels h)" by simp
    with False show ?thesis
      by (subst DeleteVector_loop.simps) simp
  next
    case True
    with "1.prems" have i: "i < length (levels h)" by simp
    then have t: "level_table h (int i) = Inr (levels h ! i)"
      by (simp add: level_table_def)
    define h1 where "h1 = h\<lparr>levels := (levels h)[i := f (levels h ! i)]\<rparr>"
    have step: "DeleteVector_loop h key i = DeleteVector_loop h1 key (i + 1)"
      using True t by (subst DeleteVector_loop.simps) (simp add: h1_def f_def)
    have "DeleteVector_loop h1 key (i + 1) =
        Inr (h1\<lparr>levels := take (i + 1) (levels h1) @ map f (drop (i + 1) (levels h1))\<rparr>)"
      unfolding h1_def f_def
      using "1.prems" i by (intro "1.IH" [OF True t]) simp_all
    moreover have "take (i + 1) (levels h1) @ map f (drop (i + 1) (levels h1))
        = take i (levels h) @ map f (drop i (levels h))"
      using i by (simp add: h1_def take_Suc_conv_app_nth Cons_nth_drop_Suc [symmetric])
    moreover have "h1\<lparr>levels := ls\<rparr> = h\<lparr>levels := ls\<rparr>" for ls
      by (simp add: h1_def)
    ultimately have "DeleteVector_loop h key i
        = Inr (h\<lparr>levels := take i (levels h) @ map f (drop i (levels h))\<rparr>)"
      using step by (simp only:)
    then show ?thesis
      unfolding f_def .
  qed
qed

lemma DeleteVector_eq:
  "MaxLevels h = int (length (levels h)) \<Longrightarrow>
   DeleteVector h key =
     Inr (h\<lparr>levels := map (map_option (\<lambda>m. m(key := None))) (levels h),
            nodes := (nodes h)(key := None)\<rparr>, None)"
  by (simp add: DeleteVector_def DeleteVector_loop_eq)

lemma entries_delete:
  "entries (map_option (\<lambda>m. m(key := None)) t) = (entries t)(key := None)"
  by (cases t) (simp_all add: entries_def)

lemma DeleteVector_consistent:
  assumes "DeleteVector h key = Inr (h', e)" and "consistent h"
  shows "consistent h'"
proof -
  from assms(2) have ml: "MaxLevels h = int (length (levels h))"
    by (simp add: consistent_def well_formed_def)
  from assms(1) have h': "h' = h\<lparr>levels := map (map_option (\<lambda>m. m(key := None))) (levels h),
            nodes := (nodes h)(key := None)\<rparr>"
    by (simp add: DeleteVector_eq [OF ml])
  show ?thesis
    using assms(2) unfolding consistent_def well_formed_def h'
    by (auto simp: entries_delete split: if_splits)
qed

lemma DeleteVector_nodes:
  "DeleteVector h key = Inr (h', e) \<Longrightarrow> nodes h' key = None \<and> e = None"
  by (auto simp: DeleteVector_def split: sum.splits)

lemma delete_absent_levels:
  assumes "consistent h" and "nodes h key = None"
  shows "map (map_option (\<lambda>m. m(key := None))) (levels h) = levels h"
proof (rule map_idI)
  fix t
  assume "t \<in> set (levels h)"
  then obtain l where l: "l < length (levels h)" and t: "t = levels h ! l"
    by (auto simp: in_set_conv_nth)
  show "map_option (\<lambda>m. m(key := None)) t = t"
  proof (cases t)
    case None
    then show ?thesis by simp
  next
    case (Some m)
    have "m key = None"
    proof (rule ccontr)
      assume "m key \<noteq> None"
      with Some t have "entries (levels h ! l) key \<noteq> None" by (simp add: entries_def)
      with assms(1) l have "nodes h key \<noteq> None" by (auto simp: consistent_def)
      with assms(2) show False by simp
    qed
    then have "m(key := None) = m" by (rule fun_upd_idem)
    with Some show ?thesis by simp
  qed
qed

lemma delete_twice:
  "map_option (\<lambda>m. m(key := None)) \<circ> map_option (\<lambda>m. m(key := None))
     = (map_option (\<lambda>m. m(key := None)) :: table option \<Rightarrow> table option)"
proof
  fix t :: "table option"
  show "(map_option (\<lambda>m. m(key := None)) \<circ> map_option (\<lambda>m. m(key := None))) t
      = map_option (\<lambda>m. m(key := None)) t"
    by (cases t) simp_all
qed

section \<open>Reachable indexes, and when an insertion returns\<close>

lemma NewHNSW_consistent:
  assumes "NewHNSW maxNeighbors maxLevels = Inr h"
  shows "consistent h" and "MaxNeighbors h = maxNeighbors" and "MaxLevels h = maxLevels"
  using assms
  by (auto simp: NewHNSW_def consistent_def well_formed_def entries_def split: if_splits)

lemma UpdateVector_InrE:
  assumes "UpdateVector h key newVector rnd order = Inr (h', e)"
  obtains (absent) "nodes h key = None" and "h' = h"
      and "e = Some (''vector with id '' @ key @ '' not found'')"
    | (present) h1 e1 where "nodes h key \<noteq> None" and "DeleteVector h key = Inr (h1, e1)"
      and "AddVector h1 key newVector rnd order = Inr h'" and "e = None"
  using assms unfolding UpdateVector_def
  by (auto split: option.splits sum.splits prod.splits)

lemma UpdateVector_consistent:
  assumes "UpdateVector h key newVector rnd order = Inr (h', e)" and "consistent h"
  shows "consistent h'"
  using assms(1)
proof (cases rule: UpdateVector_InrE)
  case absent
  with assms(2) show ?thesis by simp
next
  case (present h1 e1)
  from present(2) assms(2) have "consistent h1"
    by (rule DeleteVector_consistent)
  with present(3) show ?thesis
    by (rule AddVector_consistent)
qed

lemma reachable_consistent:
  "reachable maxNeighbors maxLevels h \<Longrightarrow>
   consistent h \<and> MaxNeighbors h = maxNeighbors \<and> MaxLevels h = maxLevels"
proof (induction rule: reachable.induct)
  case (new h)
  then show ?case by (simp add: NewHNSW_consistent)
next
  case (add h key order vector rnd h')
  then show ?case
    by (auto simp: AddVector_consistent AddVector_effect(4,5))
next
  case (update h key order vector rnd h' e)
  from update(3) show ?case
  proof (cases rule: UpdateVector_InrE)
    case absent
    with update show ?thesis by simp
  next
    case (present h1 e1)
    from update.IH have ml: "MaxLevels h = int (length (levels h))"
      by (simp add: consistent_def well_formed_def)
    from present(2) have "MaxNeighbors h1 = MaxNeighbors h" "MaxLevels h1 = MaxLevels h"
      by (auto simp: DeleteVector_eq [OF ml])
    with update present show ?thesis
      by (auto simp: UpdateVector_consistent AddVector_effect(4,5))
  qed
next
  case (delete h key h' e)
  from delete.IH have ml: "MaxLevels h = int (length (levels h))"
    by (simp add: consistent_def well_formed_def)
  from delete(2) have "MaxNeighbors h' = MaxNeighbors h" "MaxLevels h' = MaxLevels h"
    by (auto simp: DeleteVector_eq [OF ml])
  with delete show ?case
    by (auto simp: DeleteVector_consistent)
qed

lemma findNeighbors_returns:
  assumes "0 \<le> level" and "level < int (length (levels h))" and "p < length (heap h)"
    and "0 \<le> MaxNeighbors h"
    and "\<And>key q. entries (levels h ! nat level) key = Some q \<Longrightarrow> key \<noteq> ID (heap h ! p) \<Longrightarrow>
           q < length (heap h) \<and>
           length (Values (Vector (heap h ! p))) \<le> length (Values (Vector (heap h ! q)))"
  shows "\<exists>ns. findNeighbors h order p level = Inr ns"
proof -
  from findNeighbors_range_returns [of p h order "entries (levels h ! nat level)" "[]" "[]"]
  obtain r where "findNeighbors_range h p (entries (levels h ! nat level)) order [] [] = Inr r"
    using assms(3,5) by blast
  then show ?thesis
    using assms(1,2,4) by (cases r) (simp add: findNeighbors_def level_table_def Let_def)
qed

lemma addNodeToLevel_returns:
  assumes "0 \<le> level" and "level < int (length (levels h))" and "p < length (heap h)"
    and "0 \<le> MaxNeighbors h" and "well_formed h" and "fits h (Some (ID (heap h ! p))) (Vector (heap h ! p))"
  shows "\<exists>h'. addNodeToLevel h order p level = Inr h'"
proof -
  have "\<exists>ns. findNeighbors (put_level h level p) order p level = Inr ns"
  proof (rule findNeighbors_returns)
    fix key q
    assume en: "entries (levels (put_level h level p) ! nat level) key = Some q"
      and k: "key \<noteq> ID (heap (put_level h level p) ! p)"
    from assms(1,2) have l: "nat level < length (levels h)" by simp
    from en k put_level_entries [OF l, of level p]
    have old: "entries (levels h ! nat level) key = Some q" by (simp split: if_splits)
    with assms(5) l have "q < length (heap h)"
      by (auto simp: well_formed_def)
    moreover from assms(6) l old k
    have "length (Values (Vector (heap h ! p))) \<le> length (Values (Vector (heap h ! q)))"
      by (auto simp: fits_def)
    ultimately show "q < length (heap (put_level h level p)) \<and>
      length (Values (Vector (heap (put_level h level p) ! p)))
        \<le> length (Values (Vector (heap (put_level h level p) ! q)))"
      by simp
  qed (use assms in simp_all)
  then show ?thesis
    using assms(1-3) by (auto simp: addNodeToLevel_eq)
qed

lemma addNodeToLevel_fits:
  assumes "addNodeToLevel h order p level = Inr h'"
    and "fits h (Some (ID (heap h ! p))) v"
  shows "fits h' (Some (ID (heap h ! p))) v"
proof -
  note f = addNodeToLevel_frame [OF assms(1)]
  show ?thesis
    unfolding fits_def
  proof (intro allI impI)
    fix l key q
    assume l: "l < length (levels h')" and en: "entries (levels h' ! l) key = Some q"
      and k: "Some key \<noteq> Some (ID (heap h ! p))"
    from l have l': "l < length (levels h)" by (simp add: f)
    from en k f(12) [OF l'] have "entries (levels h ! l) key = Some q"
      by (auto split: if_splits)
    with assms(2) l' k show "length (Values v) \<le> length (Values (Vector (heap h' ! q)))"
      by (auto simp: fits_def f(10))
  qed
qed

lemma AddVector_loop_returns:
  "level \<le> int (length (levels h)) \<Longrightarrow> p < length (heap h) \<Longrightarrow> 0 \<le> MaxNeighbors h \<Longrightarrow>
   well_formed h \<Longrightarrow> fits h (Some (ID (heap h ! p))) (Vector (heap h ! p)) \<Longrightarrow>
   \<exists>h'. AddVector_loop h rnd order p level i = Inr h'"
proof (induction h rnd order p level i rule: AddVector_loop.induct)
  case (1 h rnd order p level i)
  show ?case
  proof (cases "level > 0 \<and> rnd i")
    case False
    then show ?thesis
      by (subst AddVector_loop.simps) auto
  next
    case True
    with "1.prems" obtain h1 where a: "addNodeToLevel h (order (level - 1)) p (level - 1) = Inr h1"
      using addNodeToLevel_returns [of "level - 1" h p "order (level - 1)"] by auto
    note f = addNodeToLevel_frame [OF a]
    have "\<exists>h'. AddVector_loop h1 rnd order p (level - 1) (i + 1) = Inr h'"
    proof (rule "1.IH" [OF True a])
      show "fits h1 (Some (ID (heap h1 ! p))) (Vector (heap h1 ! p))"
        using addNodeToLevel_fits [OF a "1.prems"(5)] by (simp add: f(9,10))
      show "well_formed h1"
        using a "1.prems"(4) by (rule addNodeToLevel_well_formed)
      show "level - 1 \<le> int (length (levels h1))"
        using "1.prems"(1) by (simp add: f(4))
      show "p < length (heap h1)"
        using "1.prems"(2) by (simp add: f(5))
      show "0 \<le> MaxNeighbors h1"
        using "1.prems"(3) by (simp add: f(2))
    qed
    then show ?thesis
      using True a by (subst AddVector_loop.simps) simp
  qed
qed

lemma well_formed_alloc:
  assumes "well_formed h"
  shows "well_formed (h\<lparr>heap := heap h @ [n]\<rparr>)"
proof -
  let ?h = "h\<lparr>heap := heap h @ [n]\<rparr>"
  have 1: "MaxLevels ?h = int (length (levels ?h))"
    using assms by (simp add: well_formed_def)
  have 2: "q < length (heap ?h) \<and> ID (heap ?h ! q) = key"
    if "l < length (levels ?h)" and "entries (levels ?h ! l) key = Some q" for l key q
  proof -
    from that assms have "q < length (heap h) \<and> ID (heap h ! q) = key"
      by (auto simp: well_formed_def)
    then show ?thesis by (simp add: nth_append)
  qed
  have 3: "q < length (heap ?h) \<and> ID (heap ?h ! q) = key" if "nodes ?h key = Some q" for key q
  proof -
    from that assms have "q < length (heap h) \<and> ID (heap h ! q) = key"
      by (auto simp: well_formed_def)
    then show ?thesis by (simp add: nth_append)
  qed
  from 1 2 3 show ?thesis
    unfolding well_formed_def by blast
qed

lemma AddVector_returns:
  assumes "well_formed h" and "1 \<le> MaxLevels h" and "0 \<le> MaxNeighbors h"
    and "fits h (Some key) vector"
  shows "\<exists>h'. AddVector h key vector rnd order = Inr h'"
proof -
  define p where "p = length (heap h)"
  define h0 where "h0 = h\<lparr>heap := heap h @ [\<lparr>ID = key, Neighbors = [], Vector = vector\<rparr>]\<rparr>"
  have h0: "heap h0 ! p = \<lparr>ID = key, Neighbors = [], Vector = vector\<rparr>" "levels h0 = levels h"
    "MaxNeighbors h0 = MaxNeighbors h" "MaxLevels h0 = MaxLevels h" "length (heap h0) = Suc p"
    "nodes h0 = nodes h"
    by (simp_all add: h0_def p_def)
  have old: "heap h0 ! q = heap h ! q" if "q < length (heap h)" for q
    using that by (simp add: h0_def nth_append)
  from assms(1) have ml: "MaxLevels h = int (length (levels h))"
    by (simp add: well_formed_def)
  have wf0: "well_formed h0"
    unfolding h0_def using assms(1) by (rule well_formed_alloc)
  have fits0: "fits h0 (Some (ID (heap h0 ! p))) (Vector (heap h0 ! p))"
    unfolding fits_def h0
  proof (intro allI impI)
    fix l k q
    assume l: "l < length (levels h)" and en: "entries (levels h ! l) k = Some q"
      and k: "Some k \<noteq> Some (ID \<lparr>ID = key, Neighbors = [], Vector = vector\<rparr>)"
    from assms(1) l en have "q < length (heap h)" by (auto simp: well_formed_def)
    with assms(4) l en k
    show "length (Values (Vector \<lparr>ID = key, Neighbors = [], Vector = vector\<rparr>))
        \<le> length (Values (Vector (heap h0 ! q)))"
      by (auto simp: fits_def old)
  qed
  have "\<exists>h1. addNodeToLevel h0 (order (MaxLevels h - 1)) p (MaxLevels h - 1) = Inr h1"
  proof (rule addNodeToLevel_returns)
    show "0 \<le> MaxLevels h - 1" using assms(2) by simp
    show "MaxLevels h - 1 < int (length (levels h0))" using ml by (simp add: h0(2))
    show "p < length (heap h0)" by (simp add: h0(5))
    show "0 \<le> MaxNeighbors h0" using assms(3) by (simp add: h0(3))
  qed (fact wf0 fits0)+
  then obtain h1 where a: "addNodeToLevel h0 (order (MaxLevels h - 1)) p (MaxLevels h - 1) = Inr h1" ..
  note f = addNodeToLevel_frame [OF a]
  have "\<exists>h2. AddVector_loop h1 rnd order p (MaxLevels h - 1) 0 = Inr h2"
  proof (rule AddVector_loop_returns)
    show "fits h1 (Some (ID (heap h1 ! p))) (Vector (heap h1 ! p))"
      using addNodeToLevel_fits [OF a fits0] by (simp add: f(9,10))
    show "well_formed h1"
      using a wf0 by (rule addNodeToLevel_well_formed)
    show "MaxLevels h - 1 \<le> int (length (levels h1))"
      using ml by (simp add: f(4) h0(2))
    show "p < length (heap h1)"
      by (simp add: f(5) h0(5))
    show "0 \<le> MaxNeighbors h1"
      using assms(3) by (simp add: f(2) h0(3))
  qed
  then obtain h2 where "AddVector_loop h1 rnd order p (MaxLevels h - 1) 0 = Inr h2" ..
  with a show ?thesis
    by (simp add: AddVector_def Let_def h0_def p_def)
qed

lemma fits_delete:
  assumes "fits h skip v"
  shows "fits (h\<lparr>levels := map (map_option (\<lambda>m. m(key := None))) (levels h),
            nodes := (nodes h)(key := None)\<rparr>) skip v"
  using assms unfolding fits_def
  by (auto simp: entries_delete split: if_splits)

lemma AddVector_no_level:
  "MaxLevels h \<le> 0 \<Longrightarrow> AddVector h key vector rnd order = Inl IndexOutOfRange"
  by (simp add: AddVector_def addNodeToLevel_eq Let_def)

section \<open>NearestNeighbors\<close>

lemma NearestNeighbors_best_stop:
  "\<not> (int i < k \<and> i < length candidates) \<Longrightarrow>
   NearestNeighbors_best h k candidates distances i b bd = Inr (b, bd)"
  by (subst NearestNeighbors_best.simps) auto

lemma NearestNeighbors_range_empty:
  "(\<And>key. key \<in> set order \<Longrightarrow> m key = None) \<Longrightarrow>
   NearestNeighbors_range h query m order cs ds = Inr (cs, ds)"
  by (induction order arbitrary: cs ds) simp_all

lemma SliceStable_Nil [simp]: "SliceStable [] lt = []"
  using SliceStable_length [of "[]" lt] by simp

lemma NearestNeighbors_levels_negative:
  "k < 0 \<Longrightarrow> NearestNeighbors_levels h order query k level b bd = Inr r \<Longrightarrow> r = (b, bd)"
proof (induction h order query k level b bd rule: NearestNeighbors_levels.induct)
  case (1 h order query k level b bd)
  show ?case
  proof (cases "level \<ge> 0")
    case False
    with "1.prems" show ?thesis
      by (subst (asm) NearestNeighbors_levels.simps) simp
  next
    case True
    from "1.prems"(2) True obtain t cs ds b' bd' where
      t: "level_table h level = Inr t"
      and r: "NearestNeighbors_range h query (entries t) (order level) [] [] = Inr (cs, ds)"
      and b: "NearestNeighbors_best h k (SliceStable cs (\<lambda>i j. ds ! i < ds ! j)) ds 0 b bd = Inr (b', bd')"
      and l: "NearestNeighbors_levels h order query k (level - 1) b' bd' = Inr r"
      by (subst (asm) NearestNeighbors_levels.simps) (auto split: sum.splits prod.splits)
    from b "1.prems"(1) have "b' = b \<and> bd' = bd"
      by (simp add: NearestNeighbors_best_stop)
    with "1.IH" [OF True t r refl b refl "1.prems"(1)] l
    show ?thesis by simp
  qed
qed

lemma NearestNeighbors_levels_empty:
  "(\<And>l. l < length (levels h) \<Longrightarrow> entries (levels h ! l) = Map.empty) \<Longrightarrow>
   level < int (length (levels h)) \<Longrightarrow>
   NearestNeighbors_levels h order query k level b bd = Inr (b, bd)"
proof (induction h order query k level b bd rule: NearestNeighbors_levels.induct)
  case (1 h order query k level b bd)
  show ?case
  proof (cases "level \<ge> 0")
    case False
    then show ?thesis
      by (subst NearestNeighbors_levels.simps) simp
  next
    case True
    with "1.prems"(2) have t: "level_table h level = Inr (levels h ! nat level)"
      by (simp add: level_table_def)
    from True "1.prems"(2) have "entries (levels h ! nat level) = Map.empty"
      by (intro "1.prems"(1)) simp
    then have r: "NearestNeighbors_range h query (entries (levels h ! nat level)) (order level) [] []
        = Inr ([], [])"
      by (simp add: NearestNeighbors_range_empty)
    have b: "NearestNeighbors_best h k (SliceStable [] (\<lambda>i j. [] ! i < [] ! j)) [] 0 b bd = Inr (b, bd)"
      by (simp add: NearestNeighbors_best_stop)
    have "NearestNeighbors_levels h order query k (level - 1) b bd = Inr (b, bd)"
      using "1.prems" by (intro "1.IH" [OF True t r refl b refl]) simp_all
    then show ?thesis
      using True t r b by (subst NearestNeighbors_levels.simps) simp
  qed
qed

lemma NearestNeighbors_range_Inl:
  assumes "\<And>key q. m key = Some q \<Longrightarrow> q < length (heap h)"
  shows "NearestNeighbors_range h query m order cs ds = Inl e \<Longrightarrow> e = IndexOutOfRange"
proof (induction order arbitrary: cs ds)
  case Nil
  then show ?case by simp
next
  case (Cons key order)
  show ?case
  proof (cases "m key")
    case None
    with Cons show ?thesis by simp
  next
    case (Some q)
    with assms have q: "deref h q = Inr (heap h ! q)" by (simp add: deref_valid)
    show ?thesis
    proof (cases "length (Values (Vector (heap h ! q))) < length (Values query)")
      case True
      with Cons.prems Some q show ?thesis by (simp add: euclideanDistance_eq)
    next
      case False
      with Cons.prems Some q Cons.IH show ?thesis by (simp add: euclideanDistance_eq)
    qed
  qed
qed

lemma NearestNeighbors_range_keys:
  assumes "\<And>key q. m key = Some q \<Longrightarrow> ID (heap h ! q) = key"
  shows "NearestNeighbors_range h query m order cs ds = Inr (cs', ds') \<Longrightarrow>
         set cs' \<subseteq> set cs \<union> dom m"
proof (induction order arbitrary: cs ds)
  case Nil
  then show ?case by simp
next
  case (Cons key order)
  show ?case
  proof (cases "m key")
    case None
    with Cons.prems have "NearestNeighbors_range h query m order cs ds = Inr (cs', ds')" by simp
    from Cons.IH [OF this] show ?thesis .
  next
    case (Some q)
    with Cons.prems obtain d where
      "NearestNeighbors_range h query m order (cs @ [ID (heap h ! q)]) (ds @ [d]) = Inr (cs', ds')"
      by (auto simp: deref_def split: if_splits sum.splits)
    from Cons.IH [OF this] assms [OF Some] Some show ?thesis by auto
  qed
qed

lemma NearestNeighbors_range_returns:
  assumes "\<And>key q. m key = Some q \<Longrightarrow>
             q < length (heap h) \<and> length (Values query) \<le> length (Values (Vector (heap h ! q)))"
  shows "\<exists>r. NearestNeighbors_range h query m order cs ds = Inr r"
proof (induction order arbitrary: cs ds)
  case Nil
  show ?case by simp
next
  case (Cons key order)
  show ?case
  proof (cases "m key")
    case None
    with Cons.IH show ?thesis by simp
  next
    case (Some q)
    from assms [OF Some] Some Cons.IH show ?thesis
      by (simp add: deref_valid euclideanDistance_eq)
  qed
qed

lemma NearestNeighbors_best_Inl:
  "(\<And>c. c \<in> set candidates \<Longrightarrow> \<exists>q. nodes h c = Some q \<and> q < length (heap h)) \<Longrightarrow>
   NearestNeighbors_best h k candidates distances i b bd \<noteq> Inl e"
proof (induction h k candidates distances i b bd rule: NearestNeighbors_best.induct)
  case (1 h k candidates distances i b bd)
  show ?case
  proof (cases "int i < k \<and> i < length candidates")
    case False
    then show ?thesis by (simp add: NearestNeighbors_best_stop)
  next
    case True
    then have "candidates ! i \<in> set candidates" by simp
    from "1.prems" [OF this] obtain q where
      q: "nodes h (candidates ! i) = Some q" "q < length (heap h)" by blast
    then have d: "deref h q = Inr (heap h ! q)" by (simp add: deref_valid)
    from "1.IH" [OF True q(1) d "1.prems"] True q(1) d show ?thesis
      by (subst NearestNeighbors_best.simps) simp
  qed
qed

lemma consistent_entry:
  assumes "consistent h" and "l < length (levels h)" and "entries (levels h ! l) key = Some q"
  shows "q < length (heap h)" and "ID (heap h ! q) = key"
    and "\<exists>q'. nodes h key = Some q' \<and> q' < length (heap h)"
proof -
  from assms show "q < length (heap h)" and "ID (heap h ! q) = key"
    by (auto simp: consistent_def well_formed_def)
  from assms have "nodes h key \<noteq> None"
    by (auto simp: consistent_def)
  then obtain q' where "nodes h key = Some q'" by blast
  moreover from this assms(1) have "q' < length (heap h)"
    by (auto simp: consistent_def well_formed_def)
  ultimately show "\<exists>q'. nodes h key = Some q' \<and> q' < length (heap h)" by blast
qed

lemma NearestNeighbors_level_step:
  assumes "consistent h" and "0 \<le> level" and "level < int (length (levels h))"
  obtains (panic) "NearestNeighbors_range h query (entries (levels h ! nat level)) (order level) [] []
                     = Inl IndexOutOfRange"
    | (ok) cs ds b' bd' where
        "NearestNeighbors_range h query (entries (levels h ! nat level)) (order level) [] []
           = Inr (cs, ds)"
        and "NearestNeighbors_best h k (SliceStable cs (\<lambda>i j. ds ! i < ds ! j)) ds 0 b bd
           = Inr (b', bd')"
proof -
  let ?m = "entries (levels h ! nat level)"
  from assms(2,3) have l: "nat level < length (levels h)" by simp
  show thesis
  proof (cases "NearestNeighbors_range h query ?m (order level) [] []")
    case (Inl e)
    then have "e = IndexOutOfRange"
      by (rule NearestNeighbors_range_Inl [rotated]) (rule consistent_entry(1) [OF assms(1) l])
    with Inl show ?thesis by (intro panic) simp
  next
    case (Inr r)
    obtain cs ds where r: "r = (cs, ds)" by (cases r)
    have "set cs \<subseteq> set [] \<union> dom ?m"
      by (rule NearestNeighbors_range_keys [OF _ Inr [unfolded r]])
         (rule consistent_entry(2) [OF assms(1) l])
    then have "\<exists>q. nodes h c = Some q \<and> q < length (heap h)"
      if "c \<in> set (SliceStable cs (\<lambda>i j. ds ! i < ds ! j))" for c
      using that consistent_entry(3) [OF assms(1) l] by (auto simp: SliceStable_set)
    then have "NearestNeighbors_best h k (SliceStable cs (\<lambda>i j. ds ! i < ds ! j)) ds 0 b bd \<noteq> Inl e"
      for e by (rule NearestNeighbors_best_Inl)
    then obtain b' bd' where
      "NearestNeighbors_best h k (SliceStable cs (\<lambda>i j. ds ! i < ds ! j)) ds 0 b bd = Inr (b', bd')"
      by (cases "NearestNeighbors_best h k (SliceStable cs (\<lambda>i j. ds ! i < ds ! j)) ds 0 b bd") auto
    with Inr r show ?thesis by (intro ok) simp_all
  qed
qed

lemma NearestNeighbors_levels_Inl:
  "consistent h \<Longrightarrow> level < int (length (levels h)) \<Longrightarrow>
   NearestNeighbors_levels h order query k level b bd = Inl e \<Longrightarrow> e = IndexOutOfRange"
proof (induction h order query k level b bd rule: NearestNeighbors_levels.induct)
  case (1 h order query k level b bd)
  show ?case
  proof (cases "level \<ge> 0")
    case False
    with "1.prems" show ?thesis
      by (subst (asm) NearestNeighbors_levels.simps) simp
  next
    case True
    with "1.prems"(2) have t: "level_table h level = Inr (levels h ! nat level)"
      by (simp add: level_table_def)
    from "1.prems"(1) True "1.prems"(2) show ?thesis
    proof (cases rule: NearestNeighbors_level_step [where query = query and order = order
          and k = k and b = b and bd = bd])
      case panic
      with "1.prems"(3) True t show ?thesis
        by (subst (asm) NearestNeighbors_levels.simps) simp
    next
      case (ok cs ds b' bd')
      from "1.prems"(3) True t ok
      have "NearestNeighbors_levels h order query k (level - 1) b' bd' = Inl e"
        by (subst (asm) NearestNeighbors_levels.simps) simp
      with "1.prems"(1,2) show ?thesis
        by (intro "1.IH" [OF True t ok(1) refl ok(2) refl]) simp_all
    qed
  qed
qed

lemma NearestNeighbors_levels_returns:
  "consistent h \<Longrightarrow> fits h None query \<Longrightarrow> level < int (length (levels h)) \<Longrightarrow>
   \<exists>r. NearestNeighbors_levels h order query k level b bd = Inr r"
proof (induction h order query k level b bd rule: NearestNeighbors_levels.induct)
  case (1 h order query k level b bd)
  show ?case
  proof (cases "level \<ge> 0")
    case False
    then show ?thesis
      by (subst NearestNeighbors_levels.simps) simp
  next
    case True
    with "1.prems"(3) have t: "level_table h level = Inr (levels h ! nat level)"
      and l: "nat level < length (levels h)"
      by (simp_all add: level_table_def)
    have "\<exists>r. NearestNeighbors_range h query (entries (levels h ! nat level)) (order level) [] []
        = Inr r"
    proof (rule NearestNeighbors_range_returns)
      fix key q
      assume en: "entries (levels h ! nat level) key = Some q"
      from consistent_entry(1) [OF "1.prems"(1) l en] "1.prems"(2) l en
      show "q < length (heap h) \<and> length (Values query) \<le> length (Values (Vector (heap h ! q)))"
        by (auto simp: fits_def)
    qed
    then have np: "NearestNeighbors_range h query (entries (levels h ! nat level)) (order level) [] []
        \<noteq> Inl IndexOutOfRange"
      by auto
    from "1.prems"(1) True "1.prems"(3) show ?thesis
    proof (cases rule: NearestNeighbors_level_step [where query = query and order = order
          and k = k and b = b and bd = bd])
      case panic
      with np show ?thesis by simp
    next
      case (ok cs ds b' bd')
      have "\<exists>r. NearestNeighbors_levels h order query k (level - 1) b' bd' = Inr r"
        using "1.prems" by (intro "1.IH" [OF True t ok(1) refl ok(2) refl]) simp_all
      with True t ok show ?thesis
        by (subst NearestNeighbors_levels.simps) simp
    qed
  qed
qed

section \<open>Running the model on concrete indexes\<close>

text \<open>On a slice of at most 20 elements the library sort is one insertion sort.\<close>

lemma insertionSort_outer_stop: "\<not> i < b \<Longrightarrow> insertionSort_outer lt a b i = []"
  by (subst insertionSort_outer.simps) simp

lemma stable_func_small:
  assumes "n \<le> 20"
  shows "stable_func lt n = insertionSort_func lt 0 n"
proof (cases "n = 20")
  case True
  have "stable_blocks lt 20 20 0 20 = insertionSort_func lt 0 20 @ stable_blocks lt 20 20 20 40"
    by (subst stable_blocks.simps) simp
  also have "stable_blocks lt 20 20 20 40 = insertionSort_func lt 20 20"
    by (subst stable_blocks.simps) simp
  also have "\<dots> = []"
    by (simp add: insertionSort_func_def insertionSort_outer_stop)
  finally show ?thesis
    using True by (simp add: stable_func_def stable_merges.simps)
next
  case False
  with assms have "n < 20" by simp
  then have "stable_blocks lt n 20 0 20 = insertionSort_func lt 0 n"
    by (subst stable_blocks.simps) simp
  then show ?thesis
    using \<open>n < 20\<close> by (simp add: stable_func_def stable_merges.simps)
qed

lemma SliceStable_small:
  "length x \<le> 20 \<Longrightarrow> SliceStable x lt = foldl Swap x (insertionSort_func lt 0 (length x))"
  by (simp add: SliceStable_def stable_func_small)

lemmas run_sort = SliceStable_small insertionSort_func_def insertionSort_outer.simps
  insertionSort_inner.simps Swap_def

lemmas run_engine = AddVector_def addNodeToLevel_eq put_level_def findNeighbors_def
  level_table_def deref_def entries_def euclideanDistance_eq AddVector_loop.simps Let_def
  NearestNeighbors_def NearestNeighbors_levels.simps NearestNeighbors_best.simps
  DeleteVector_eq UpdateVector_def NewHNSW_def

lemmas run_examples = point_def origin_def never_def once_def line0_def line1_def line2_def
  line3_def tower0_def tower1_def tower2_def tower_order_def flat0_def
  insertion_orders_def range_order_def numeral_2_eq_2

lemma line0_new: "NewHNSW 5 1 = Inr line0"
  by (simp add: run_engine run_examples)

lemma line1_add: "AddVector line0 ''a'' (point ''a'' 10) never (\<lambda>_. [''a'']) = Inr line1"
  by (simp add: run_engine run_sort run_examples)

lemma line2_add: "AddVector line1 ''b'' (point ''b'' 1) never (\<lambda>_. [''a'', ''b'']) = Inr line2"
  by (simp add: run_engine run_sort run_examples)

lemma line3_add: "AddVector line2 ''c'' (point ''c'' 5) never (\<lambda>_. [''a'', ''b'', ''c'']) = Inr line3"
  by (simp add: run_engine run_sort run_examples)

lemma line_orders:
  "insertion_orders line0 ''a'' (\<lambda>_. [''a''])"
  "insertion_orders line1 ''b'' (\<lambda>_. [''a'', ''b''])"
  "insertion_orders line2 ''c'' (\<lambda>_. [''a'', ''b'', ''c''])"
  by (auto simp: run_examples entries_def)

lemma line_reachable: "reachable 5 1 line0" "reachable 5 1 line1" "reachable 5 1 line2"
  "reachable 5 1 line3"
proof -
  show 0: "reachable 5 1 line0"
    by (rule reachable.new) (rule line0_new)
  from 0 line_orders(1) line1_add show 1: "reachable 5 1 line1"
    by (rule reachable.add)
  from 1 line_orders(2) line2_add show 2: "reachable 5 1 line2"
    by (rule reachable.add)
  from 2 line_orders(3) line3_add show "reachable 5 1 line3"
    by (rule reachable.add)
qed

lemma tower0_new: "NewHNSW 5 2 = Inr tower0"
  by (simp add: run_engine run_examples)

lemma tower1_add: "AddVector tower0 ''a'' (point ''a'' 10) never (\<lambda>_. [''a'']) = Inr tower1"
  by (simp add: run_engine run_sort run_examples)

lemma tower2_add: "AddVector tower1 ''b'' (point ''b'' 1) once tower_order = Inr tower2"
  by (simp add: run_engine run_sort run_examples)

lemma tower_orders:
  "insertion_orders tower0 ''a'' (\<lambda>_. [''a''])"
  "insertion_orders tower1 ''b'' tower_order"
  by (auto simp: run_examples entries_def less_Suc_eq)

lemma tower_reachable: "reachable 5 2 tower0" "reachable 5 2 tower1" "reachable 5 2 tower2"
proof -
  show 0: "reachable 5 2 tower0"
    by (rule reachable.new) (rule tower0_new)
  from 0 tower_orders(1) tower1_add show 1: "reachable 5 2 tower1"
    by (rule reachable.add)
  from 1 tower_orders(2) tower2_add show "reachable 5 2 tower2"
    by (rule reachable.add)
qed

lemma flat0_new: "NewHNSW 5 0 = Inr flat0"
  by (simp add: run_engine run_examples)

lemma sqrt_100: "sqrt 100 = 10"
  by (rule real_sqrt_unique) simp_all

lemma sqrt_25: "sqrt 25 = 5"
  by (rule real_sqrt_unique) simp_all

section \<open>The claims\<close>

text \<open>
  Claim C1. The claim: \<open>NearestNeighbors\<close> sorts the node IDs of each level ascending by
  distance to the query, so that for three vectors at distances 1, 5 and 10 from the query
  \<open>NearestNeighbors(query, 2)\<close> returns the two closest, nearest first, whatever the
  iteration order of the level table. The code sorts \<open>candidates\<close> with a comparison that
  reads \<open>distances[i]\<close> and \<open>distances[j]\<close>, and the sort moves the elements of
  \<open>candidates\<close> only: after the first swap the distance at an index is no longer that of
  the candidate at that index. On the index \<open>line3\<close> (built by three insertions), when the
  level table is visited in the order a, b, c (distances 10, 1, 5), the result is the
  vectors at distances 1 and 10: the vector at distance 5 is left out.
\<close>
theorem NearestNeighbors_not_sorted:
  "reachable 5 1 line3 \<and>
   range_order (entries (levels line3 ! 0)) [''a'', ''b'', ''c''] \<and>
   euclideanDistance origin (point ''a'' 10) = Inr 10 \<and>
   euclideanDistance origin (point ''b'' 1) = Inr 1 \<and>
   euclideanDistance origin (point ''c'' 5) = Inr 5 \<and>
   NearestNeighbors line3 (\<lambda>_. [''a'', ''b'', ''c'']) origin 2
     = Inr [point ''b'' 1, point ''a'' 10]"
proof (intro conjI)
  show "reachable 5 1 line3"
    by (rule line_reachable)
  show "range_order (entries (levels line3 ! 0)) [''a'', ''b'', ''c'']"
    by (auto simp: run_examples entries_def)
  show "euclideanDistance origin (point ''a'' 10) = Inr 10"
    by (simp add: euclideanDistance_eq run_examples sqrt_100)
  show "euclideanDistance origin (point ''b'' 1) = Inr 1"
    by (simp add: euclideanDistance_eq run_examples)
  show "euclideanDistance origin (point ''c'' 5) = Inr 5"
    by (simp add: euclideanDistance_eq run_examples sqrt_25)
  show "NearestNeighbors line3 (\<lambda>_. [''a'', ''b'', ''c'']) origin 2
     = Inr [point ''b'' 1, point ''a'' 10]"
    by (simp add: run_engine run_sort run_examples)
qed

text \<open>
  Claim C2, amended. An insertion creates one node object. Every level the insertion
  visits, from the bottom level \<open>MaxLevels - 1\<close> up to the shallowest level it reaches,
  and the flat table hold the address of that one object; \<open>addNodeToLevel\<close> overwrites
  its \<open>Neighbors\<close> field at each level visited. So after the insertion the \<open>Neighbors\<close>
  seen through the flat table (and through every level) are those computed at the
  shallowest level reached: the bottom level's only when the insertion was not promoted.
\<close>
theorem AddVector_shares_one_node:
  assumes "reachable maxNeighbors maxLevels h"
    and "AddVector h key vector rnd order = Inr h'"
  shows "nodes h' key = Some (length (heap h)) \<and>
         (\<forall>l < length (levels h').
            entries (levels h' ! l) key = Some (length (heap h))
              \<longleftrightarrow> AddVector_top rnd (maxLevels - 1) 0 \<le> int l) \<and>
         findNeighbors h' (order (AddVector_top rnd (maxLevels - 1) 0)) (length (heap h))
             (AddVector_top rnd (maxLevels - 1) 0)
           = Inr (Neighbors (heap h' ! length (heap h)))"
proof -
  from reachable_consistent [OF assms(1)]
  have c: "consistent h" and ml: "MaxLevels h = maxLevels" by simp_all
  from c have len: "maxLevels = int (length (levels h))"
    using ml by (simp add: consistent_def well_formed_def)
  note e = AddVector_effect [OF assms(2), unfolded ml]
  let ?t = "AddVector_top rnd (maxLevels - 1) 0"
  have "entries (levels h' ! l) key = Some (length (heap h)) \<longleftrightarrow> ?t \<le> int l"
    if l: "l < length (levels h')" for l
  proof -
    from l have l': "l < length (levels h)" by (simp add: e)
    have old: "entries (levels h ! l) key \<noteq> Some (length (heap h))"
      using consistent_entry(1) [OF c l'] by fastforce
    from l' len have "l \<le> nat (maxLevels - 1)" by simp
    moreover from e(15) have "nat ?t \<le> l \<longleftrightarrow> ?t \<le> int l" by auto
    ultimately show ?thesis
      using e(11) [OF l'] old by auto
  qed
  with e(3,14) show ?thesis by simp
qed

theorem AddVector_shares_one_node_witness:
  "reachable 5 2 tower1 \<and> AddVector tower1 ''b'' (point ''b'' 1) once tower_order = Inr tower2 \<and>
   AddVector_top once 1 0 = 0 \<and>
   nodes tower2 ''b'' = Some 1 \<and>
   entries (levels tower2 ! 0) ''b'' = Some 1 \<and>
   entries (levels tower2 ! 1) ''b'' = Some 1 \<and>
   findNeighbors tower2 (tower_order 0) 1 0 = Inr (Neighbors (heap tower2 ! 1))"
proof -
  have r: "reachable 5 2 tower1" by (rule tower_reachable)
  have t: "AddVector_top once (2 - 1) 0 = 0"
    by (simp add: AddVector_top.simps once_def)
  have len: "length (heap tower1) = 1" "length (levels tower2) = 2"
    by (simp_all add: tower1_def tower2_def)
  from AddVector_shares_one_node [OF r tower2_add] show ?thesis
    using r tower2_add t by (simp add: len less_Suc_eq numeral_2_eq_2)
qed

text \<open>
  The counterexample to the claim as stated: in \<open>tower2\<close> the node \<open>b\<close> is one object in
  both levels, and its \<open>Neighbors\<close> are the empty list computed at level 0, not its
  bottom-level connections, which are \<open>[a]\<close>.
\<close>

theorem Neighbors_of_last_level_counterexample:
  "reachable 5 2 tower2 \<and>
   nodes tower2 ''b'' = Some 1 \<and>
   entries (levels tower2 ! 0) ''b'' = Some 1 \<and>
   entries (levels tower2 ! 1) ''b'' = Some 1 \<and>
   Neighbors (heap tower2 ! 1) = [] \<and>
   findNeighbors tower2 (tower_order 1) 1 1 = Inr [''a'']"
proof (intro conjI)
  show "reachable 5 2 tower2" by (rule tower_reachable)
  show "findNeighbors tower2 (tower_order 1) 1 1 = Inr [''a'']"
    by (simp add: run_engine run_sort run_examples)
qed (simp_all add: tower2_def entries_def)

text \<open>
  Claim C3, amended. \<open>AddVector\<close> returns on every reachable index built with
  \<open>maxLevels \<ge> 1\<close> and \<open>maxNeighbors \<ge> 0\<close>, for every ID and every vector that has no
  more values than the vectors stored under the other keys. On an index constructed with
  \<open>maxLevels = 0\<close> it does not accept the insertion: it panics with index out of range
  at \<open>hnsw.levels[-1]\<close>, the first access to the index; every query with \<open>k \<ge> 0\<close> on
  that index answers the empty sequence.
\<close>
theorem AddVector_succeeds:
  "(reachable maxNeighbors maxLevels h \<and> 1 \<le> maxLevels \<and> 0 \<le> maxNeighbors \<and>
      fits h (Some key) vector \<longrightarrow>
      (\<exists>h'. AddVector h key vector rnd order = Inr h')) \<and>
   (NewHNSW maxNeighbors 0 = Inr h0 \<longrightarrow>
      AddVector h0 key vector rnd order = Inl IndexOutOfRange \<and>
      (0 \<le> k \<longrightarrow> NearestNeighbors h0 order' query k = Inr []))"
proof (intro conjI impI)
  assume a: "reachable maxNeighbors maxLevels h \<and> 1 \<le> maxLevels \<and> 0 \<le> maxNeighbors \<and>
      fits h (Some key) vector"
  then have r: "reachable maxNeighbors maxLevels h" by simp
  from reachable_consistent [OF r] have "well_formed h" "MaxNeighbors h = maxNeighbors"
    "MaxLevels h = maxLevels"
    by (simp_all add: consistent_def)
  with a show "\<exists>h'. AddVector h key vector rnd order = Inr h'"
    by (intro AddVector_returns) simp_all
next
  assume new: "NewHNSW maxNeighbors 0 = Inr h0"
  then have h0: "MaxLevels h0 = 0" "levels h0 = []"
    by (auto simp: NewHNSW_def)
  then show "AddVector h0 key vector rnd order = Inl IndexOutOfRange"
    by (simp add: AddVector_no_level)
  assume "0 \<le> k"
  moreover have "NearestNeighbors_levels h0 order' query k (MaxLevels h0 - 1) [] [] = Inr ([], [])"
    by (subst NearestNeighbors_levels.simps) (simp add: h0)
  ultimately show "NearestNeighbors h0 order' query k = Inr []"
    by (simp add: NearestNeighbors_def)
qed

theorem AddVector_zero_levels_counterexample:
  "NewHNSW 5 0 = Inr flat0 \<and>
   AddVector flat0 ''a'' (point ''a'' 10) never (\<lambda>_. []) = Inl IndexOutOfRange"
  by (simp add: flat0_new) (simp add: run_engine run_examples)

theorem AddVector_succeeds_witness:
  "reachable 5 1 line2 \<and> fits line2 (Some ''c'') (point ''c'' 5) \<and>
   (\<exists>h'. AddVector line2 ''c'' (point ''c'' 5) never (\<lambda>_. [''a'', ''b'', ''c'']) = Inr h') \<and>
   NewHNSW 5 0 = Inr flat0 \<and>
   AddVector flat0 ''c'' (point ''c'' 5) never (\<lambda>_. [''a'', ''b'', ''c'']) = Inl IndexOutOfRange \<and>
   NearestNeighbors flat0 (\<lambda>_. []) origin 2 = Inr []"
proof -
  have r: "reachable 5 1 line2" by (rule line_reachable)
  have fits: "fits line2 (Some ''c'') (point ''c'' 5)"
    by (auto simp: fits_def line2_def point_def entries_def split: if_splits)
  have k: "(0::int) \<le> 2" by simp
  from AddVector_succeeds [of 5 1 line2 "''c''" "point ''c'' 5" never "\<lambda>_. [''a'', ''b'', ''c'']"
      flat0 2 "\<lambda>_. []" origin] r fits
  have "\<exists>h'. AddVector line2 ''c'' (point ''c'' 5) never (\<lambda>_. [''a'', ''b'', ''c'']) = Inr h'"
    by simp
  moreover
  from AddVector_succeeds [of 5 0 flat0 "''c''" "point ''c'' 5" never "\<lambda>_. [''a'', ''b'', ''c'']"
      flat0 2 "\<lambda>_. []" origin] flat0_new k
  have "AddVector flat0 ''c'' (point ''c'' 5) never (\<lambda>_. [''a'', ''b'', ''c'']) = Inl IndexOutOfRange"
    "NearestNeighbors flat0 (\<lambda>_. []) origin 2 = Inr []"
    by simp_all
  ultimately show ?thesis using r fits flat0_new by blast
qed

text \<open>
  Claim C4. For every index, every query and every \<open>k \<ge> 0\<close>, a result of
  \<open>NearestNeighbors(query, k)\<close> has at most \<open>k\<close> vectors. The call does return on every
  reachable index whose stored vectors have at least as many values as the query, and on
  a reachable index with an empty flat table (nothing inserted, or everything deleted)
  it returns the empty sequence. (For \<open>k < 0\<close> see claim C10.)
\<close>
theorem NearestNeighbors_at_most_k:
  assumes "0 \<le> k"
  shows "(\<forall>vs. NearestNeighbors h order query k = Inr vs \<longrightarrow> int (length vs) \<le> k) \<and>
         (\<forall>maxNeighbors maxLevels. reachable maxNeighbors maxLevels h \<and> fits h None query \<longrightarrow>
            (\<exists>vs. NearestNeighbors h order query k = Inr vs)) \<and>
         (\<forall>maxNeighbors maxLevels. reachable maxNeighbors maxLevels h \<and> nodes h = Map.empty \<longrightarrow>
            NearestNeighbors h order query k = Inr [])"
proof (intro conjI allI impI)
  fix vs
  assume "NearestNeighbors h order query k = Inr vs"
  then show "int (length vs) \<le> k"
    using assms
    by (auto simp: NearestNeighbors_def split: sum.splits prod.splits if_splits)
next
  fix maxNeighbors maxLevels
  assume a: "reachable maxNeighbors maxLevels h \<and> fits h None query"
  then have "consistent h"
    using reachable_consistent by blast
  moreover from this have "MaxLevels h - 1 < int (length (levels h))"
    by (simp add: consistent_def well_formed_def)
  ultimately obtain r where
    "NearestNeighbors_levels h order query k (MaxLevels h - 1) [] [] = Inr r"
    using a NearestNeighbors_levels_returns by blast
  then show "\<exists>vs. NearestNeighbors h order query k = Inr vs"
    using assms by (cases r) (simp add: NearestNeighbors_def)
next
  fix maxNeighbors maxLevels
  assume a: "reachable maxNeighbors maxLevels h \<and> nodes h = Map.empty"
  then have c: "consistent h"
    using reachable_consistent by blast
  have "entries (levels h ! l) = Map.empty" if "l < length (levels h)" for l
  proof
    fix key
    from c that a show "entries (levels h ! l) key = None"
      by (auto simp: consistent_def)
  qed
  moreover from c have "MaxLevels h - 1 < int (length (levels h))"
    by (simp add: consistent_def well_formed_def)
  ultimately have "NearestNeighbors_levels h order query k (MaxLevels h - 1) [] [] = Inr ([], [])"
    by (intro NearestNeighbors_levels_empty) simp_all
  then show "NearestNeighbors h order query k = Inr []"
    using assms by (simp add: NearestNeighbors_def)
qed

theorem NearestNeighbors_at_most_k_witness:
  "(0::int) \<le> 2 \<and> reachable 5 1 line3 \<and> fits line3 None origin \<and>
   (\<exists>vs. NearestNeighbors line3 (\<lambda>_. [''c'', ''b'', ''a'']) origin 2 = Inr vs \<and> int (length vs) \<le> 2) \<and>
   reachable 5 1 line0 \<and> nodes line0 = Map.empty \<and>
   NearestNeighbors line0 (\<lambda>_. []) origin 2 = Inr []"
proof -
  have k: "(0::int) \<le> 2" by simp
  have r3: "reachable 5 1 line3" and r0: "reachable 5 1 line0" by (rule line_reachable)+
  have fits: "fits line3 None origin"
    by (auto simp: fits_def line3_def point_def origin_def entries_def split: if_splits)
  have e: "nodes line0 = Map.empty" by (simp add: line0_def)
  note t3 = NearestNeighbors_at_most_k [OF k, of line3 "\<lambda>_. [''c'', ''b'', ''a'']" origin]
  note t0 = NearestNeighbors_at_most_k [OF k, of line0 "\<lambda>_. []" origin]
  from t3 r3 fits obtain vs where
    v: "NearestNeighbors line3 (\<lambda>_. [''c'', ''b'', ''a'']) origin 2 = Inr vs" by blast
  with t3 have "int (length vs) \<le> 2" by blast
  with v have 1: "\<exists>vs. NearestNeighbors line3 (\<lambda>_. [''c'', ''b'', ''a'']) origin 2 = Inr vs \<and>
      int (length vs) \<le> 2" by blast
  from t0 r0 e have 2: "NearestNeighbors line0 (\<lambda>_. []) origin 2 = Inr []" by blast
  from k r3 fits 1 r0 e 2 show ?thesis by blast
qed

text \<open>
  Claim C5. On every reachable index, \<open>UpdateVector(id, newVector)\<close> returns the error
  "vector with id ... not found" (and leaves the index as it is) when \<open>id\<close> is not in the
  flat table, in particular after \<open>AddVector(id, v)\<close> and \<open>DeleteVector(id)\<close>. When \<open>id\<close>
  is in the flat table it never returns that error: every result is nil, and then the
  flat table leads from \<open>id\<close> to a node whose vector is \<open>newVector\<close>; and it does return
  when \<open>newVector\<close> has no more values than the vectors stored under the other keys
  (the fixed-dimension setting of the index; a longer vector makes \<open>euclideanDistance\<close>
  panic).
\<close>
theorem UpdateVector_not_found_iff:
  assumes "reachable maxNeighbors maxLevels h"
  shows "(nodes h key = None \<longrightarrow>
            UpdateVector h key newVector rnd order
              = Inr (h, Some (''vector with id '' @ key @ '' not found''))) \<and>
         (nodes h key \<noteq> None \<longrightarrow>
            (\<forall>h' e. UpdateVector h key newVector rnd order = Inr (h', e) \<longrightarrow>
               e = None \<and>
               (\<exists>p. nodes h' key = Some p \<and> p < length (heap h') \<and>
                    Vector (heap h' ! p) = newVector))) \<and>
         (nodes h key \<noteq> None \<and> fits h (Some key) newVector \<longrightarrow>
            (\<exists>h'. UpdateVector h key newVector rnd order = Inr (h', None))) \<and>
         (\<forall>v h1 h2 e. AddVector h key v rnd order = Inr h1 \<and> DeleteVector h1 key = Inr (h2, e) \<longrightarrow>
            UpdateVector h2 key newVector rnd' order'
              = Inr (h2, Some (''vector with id '' @ key @ '' not found'')))"
proof (intro conjI impI allI)
  assume "nodes h key = None"
  then show "UpdateVector h key newVector rnd order
              = Inr (h, Some (''vector with id '' @ key @ '' not found''))"
    by (simp add: UpdateVector_def)
next
  fix h' e
  assume present: "nodes h key \<noteq> None"
    and u: "UpdateVector h key newVector rnd order = Inr (h', e)"
  from u obtain h1 where a: "AddVector h1 key newVector rnd order = Inr h'" and e: "e = None"
    using present by (cases rule: UpdateVector_InrE) auto
  note f = AddVector_effect [OF a]
  show "e = None" by (fact e)
  have "nodes h' key = Some (length (heap h1))" "length (heap h1) < length (heap h')"
    "Vector (heap h' ! length (heap h1)) = newVector"
    by (simp_all add: f)
  then show "\<exists>p. nodes h' key = Some p \<and> p < length (heap h') \<and> Vector (heap h' ! p) = newVector"
    by blast
next
  assume "nodes h key \<noteq> None \<and> fits h (Some key) newVector"
  then obtain q where q: "nodes h key = Some q" and fits: "fits h (Some key) newVector"
    by blast
  from reachable_consistent [OF assms] have c: "consistent h" by simp
  then have ml: "MaxLevels h = int (length (levels h))"
    by (simp add: consistent_def well_formed_def)
  from c q have "q < length (heap h)"
    by (auto simp: consistent_def well_formed_def)
  then have ne: "heap h \<noteq> []" by auto
  with c have ml1: "1 \<le> MaxLevels h" by (simp add: consistent_def)
  from c ne have "int (length (Neighbors (heap h ! 0))) \<le> MaxNeighbors h"
    by (auto simp: consistent_def)
  then have mn: "0 \<le> MaxNeighbors h" by simp
  define h1 where "h1 = h\<lparr>levels := map (map_option (\<lambda>m. m(key := None))) (levels h),
            nodes := (nodes h)(key := None)\<rparr>"
  have d: "DeleteVector h key = Inr (h1, None)"
    by (simp add: DeleteVector_eq [OF ml] h1_def)
  from d c have "consistent h1" by (rule DeleteVector_consistent)
  then have wf1: "well_formed h1" by (simp add: consistent_def)
  have "\<exists>h'. AddVector h1 key newVector rnd order = Inr h'"
  proof (rule AddVector_returns [OF wf1])
    show "1 \<le> MaxLevels h1" using ml1 by (simp add: h1_def)
    show "0 \<le> MaxNeighbors h1" using mn by (simp add: h1_def)
    show "fits h1 (Some key) newVector" unfolding h1_def using fits by (rule fits_delete)
  qed
  then obtain h' where "AddVector h1 key newVector rnd order = Inr h'" ..
  with q d have "UpdateVector h key newVector rnd order = Inr (h', None)"
    by (simp add: UpdateVector_def)
  then show "\<exists>h'. UpdateVector h key newVector rnd order = Inr (h', None)" ..
next
  fix v h1 h2 e
  assume "AddVector h key v rnd order = Inr h1 \<and> DeleteVector h1 key = Inr (h2, e)"
  then have "nodes h2 key = None"
    using DeleteVector_nodes by blast
  then show "UpdateVector h2 key newVector rnd' order'
              = Inr (h2, Some (''vector with id '' @ key @ '' not found''))"
    by (simp add: UpdateVector_def)
qed

theorem UpdateVector_not_found_iff_witness:
  "UpdateVector line2 ''z'' (point ''z'' 3) never (\<lambda>_. [])
     = Inr (line2, Some ''vector with id z not found'') \<and>
   (\<exists>h' p. UpdateVector line2 ''a'' (point ''a'' 3) never (\<lambda>_. [''b'', ''a'']) = Inr (h', None) \<and>
      nodes h' ''a'' = Some p \<and> Vector (heap h' ! p) = point ''a'' 3) \<and>
   (\<exists>h2. DeleteVector line1 ''a'' = Inr (h2, None) \<and>
      UpdateVector h2 ''a'' (point ''a'' 3) never (\<lambda>_. [''a''])
        = Inr (h2, Some ''vector with id a not found''))"
proof -
  have r2: "reachable 5 1 line2" and r0: "reachable 5 1 line0" by (rule line_reachable)+
  have z: "nodes line2 ''z'' = None" and a: "nodes line2 ''a'' \<noteq> None"
    by (simp_all add: line2_def)
  have fits: "fits line2 (Some ''a'') (point ''a'' 3)"
    by (auto simp: fits_def line2_def point_def entries_def split: if_splits)
  note z_thm = UpdateVector_not_found_iff [OF r2, of "''z''" "point ''z'' 3" never "\<lambda>_. []"]
  note a_thm = UpdateVector_not_found_iff [OF r2, of "''a''" "point ''a'' 3" never "\<lambda>_. [''b'', ''a'']"]
  note d_thm = UpdateVector_not_found_iff [OF r0, of "''a''" "point ''a'' 3" never "\<lambda>_. [''a'']"
      never "\<lambda>_. [''a'']"]
  from z_thm z have 1: "UpdateVector line2 ''z'' (point ''z'' 3) never (\<lambda>_. [])
     = Inr (line2, Some ''vector with id z not found'')"
    by simp
  from a_thm a fits obtain h' where
    u: "UpdateVector line2 ''a'' (point ''a'' 3) never (\<lambda>_. [''b'', ''a'']) = Inr (h', None)"
    by blast
  with a_thm a obtain p where "nodes h' ''a'' = Some p" "Vector (heap h' ! p) = point ''a'' 3"
    by blast
  with u have 2: "\<exists>h' p. UpdateVector line2 ''a'' (point ''a'' 3) never (\<lambda>_. [''b'', ''a'']) = Inr (h', None) \<and>
      nodes h' ''a'' = Some p \<and> Vector (heap h' ! p) = point ''a'' 3"
    by blast
  obtain h2 where d: "DeleteVector line1 ''a'' = Inr (h2, None)"
    by (simp add: DeleteVector_eq line1_def)
  with d_thm line1_add have "UpdateVector h2 ''a'' (point ''a'' 3) never (\<lambda>_. [''a''])
        = Inr (h2, Some ''vector with id a not found'')"
    by simp blast
  with d have 3: "\<exists>h2. DeleteVector line1 ''a'' = Inr (h2, None) \<and>
      UpdateVector h2 ''a'' (point ''a'' 3) never (\<lambda>_. [''a''])
        = Inr (h2, Some ''vector with id a not found'')"
    by blast
  from 1 2 3 show ?thesis by blast
qed

text \<open>
  Claim C6. On every reachable index, \<open>DeleteVector(id)\<close> returns nil; afterwards
  \<open>id\<close> is a key of no level table and not of the flat table; deleting again changes
  nothing; deleting an ID that is not in the flat table leaves the index as it was; and
  a deletion touches no other key, no node object and no configuration value.
\<close>
theorem DeleteVector_always_succeeds:
  assumes "reachable maxNeighbors maxLevels h"
  shows "\<exists>h'. DeleteVector h key = Inr (h', None) \<and>
           nodes h' key = None \<and>
           (\<forall>l < length (levels h'). entries (levels h' ! l) key = None) \<and>
           DeleteVector h' key = Inr (h', None) \<and>
           (nodes h key = None \<longrightarrow> h' = h) \<and>
           heap h' = heap h \<and> MaxNeighbors h' = MaxNeighbors h \<and> MaxLevels h' = MaxLevels h \<and>
           length (levels h') = length (levels h) \<and>
           (\<forall>k. k \<noteq> key \<longrightarrow> nodes h' k = nodes h k \<and>
              (\<forall>l < length (levels h). entries (levels h' ! l) k = entries (levels h ! l) k))"
proof -
  from reachable_consistent [OF assms] have c: "consistent h" by simp
  then have ml: "MaxLevels h = int (length (levels h))"
    by (simp add: consistent_def well_formed_def)
  define h' where "h' = h\<lparr>levels := map (map_option (\<lambda>m. m(key := None))) (levels h),
            nodes := (nodes h)(key := None)\<rparr>"
  have d: "DeleteVector h key = Inr (h', None)"
    by (simp add: DeleteVector_eq [OF ml] h'_def)
  have ml': "MaxLevels h' = int (length (levels h'))"
    using ml by (simp add: h'_def)
  have twice: "h'\<lparr>levels := map (map_option (\<lambda>m. m(key := None))) (levels h'),
            nodes := (nodes h')(key := None)\<rparr> = h'"
    by (simp add: h'_def delete_twice)
  have same: "h' = h" if n: "nodes h key = None"
  proof -
    from n have "(nodes h)(key := None) = nodes h" by (rule fun_upd_idem)
    with delete_absent_levels [OF c n] show "h' = h" by (simp add: h'_def)
  qed
  show ?thesis
  proof (rule exI [of _ h'], intro conjI)
    show "DeleteVector h key = Inr (h', None)" by (fact d)
    show "DeleteVector h' key = Inr (h', None)"
      unfolding DeleteVector_eq [OF ml'] twice ..
    show "nodes h key = None \<longrightarrow> h' = h" using same by blast
    show "\<forall>l < length (levels h'). entries (levels h' ! l) key = None"
      by (simp add: h'_def entries_delete)
    show "\<forall>k. k \<noteq> key \<longrightarrow> nodes h' k = nodes h k \<and>
              (\<forall>l < length (levels h). entries (levels h' ! l) k = entries (levels h ! l) k)"
      by (simp add: h'_def entries_delete)
  qed (simp_all add: h'_def)
qed

theorem DeleteVector_always_succeeds_witness:
  "reachable 5 1 line2 \<and>
   DeleteVector line2 ''b'' = Inr (line2\<lparr>levels := [Some [''a'' \<mapsto> 0]], nodes := [''a'' \<mapsto> 0]\<rparr>, None) \<and>
   (\<exists>h'. DeleteVector line2 ''b'' = Inr (h', None) \<and> nodes h' ''b'' = None \<and>
      DeleteVector h' ''b'' = Inr (h', None) \<and> nodes h' ''a'' = nodes line2 ''a'') \<and>
   nodes line2 ''z'' = None \<and> DeleteVector line2 ''z'' = Inr (line2, None)"
proof -
  have r: "reachable 5 1 line2" by (rule line_reachable)
  have z: "nodes line2 ''z'' = None" by (simp add: line2_def)
  have "DeleteVector line2 ''b'' = Inr (line2\<lparr>levels := [Some [''a'' \<mapsto> 0]], nodes := [''a'' \<mapsto> 0]\<rparr>, None)"
    by (simp add: DeleteVector_eq line2_def)
  moreover from DeleteVector_always_succeeds [OF r, of "''b''"]
  have "\<exists>h'. DeleteVector line2 ''b'' = Inr (h', None) \<and> nodes h' ''b'' = None \<and>
      DeleteVector h' ''b'' = Inr (h', None) \<and> nodes h' ''a'' = nodes line2 ''a''"
    by auto
  moreover from DeleteVector_always_succeeds [OF r, of "''z''"] z
  have "DeleteVector line2 ''z'' = Inr (line2, None)"
    by auto
  ultimately show ?thesis using r z by blast
qed

text \<open>
  Claim C7. In every index reachable from \<open>NewHNSW maxNeighbors maxLevels\<close> by the public
  operations, the \<open>Neighbors\<close> list of every node object holds at most \<open>MaxNeighbors\<close>
  IDs and never the node's own ID; every entry of the flat table and of a level table
  is such an object. (This holds for any \<open>maxNeighbors\<close> and \<open>maxLevels\<close>: with
  \<open>maxNeighbors < 0\<close> or \<open>maxLevels < 1\<close> no insertion returns, and no node is stored.)
\<close>
theorem Neighbors_bounded:
  assumes "reachable maxNeighbors maxLevels h"
  shows "(\<forall>q < length (heap h).
            int (length (Neighbors (heap h ! q))) \<le> maxNeighbors \<and>
            ID (heap h ! q) \<notin> set (Neighbors (heap h ! q))) \<and>
         (\<forall>key q. nodes h key = Some q \<longrightarrow> q < length (heap h)) \<and>
         (\<forall>l < length (levels h). \<forall>key q.
            entries (levels h ! l) key = Some q \<longrightarrow> q < length (heap h))"
proof -
  from reachable_consistent [OF assms]
  have c: "consistent h" and mn: "MaxNeighbors h = maxNeighbors" by simp_all
  from c mn have "\<forall>q < length (heap h).
            int (length (Neighbors (heap h ! q))) \<le> maxNeighbors \<and>
            ID (heap h ! q) \<notin> set (Neighbors (heap h ! q))"
    by (simp add: consistent_def)
  moreover from c have "\<forall>key q. nodes h key = Some q \<longrightarrow> q < length (heap h)"
    by (simp add: consistent_def well_formed_def)
  moreover have "\<forall>l < length (levels h). \<forall>key q.
            entries (levels h ! l) key = Some q \<longrightarrow> q < length (heap h)"
    using consistent_entry(1) [OF c] by blast
  ultimately show ?thesis by blast
qed

theorem Neighbors_bounded_witness:
  "reachable 5 1 line3 \<and> nodes line3 ''c'' = Some 2 \<and> Neighbors (heap line3 ! 2) = [''b'', ''a''] \<and>
   int (length (Neighbors (heap line3 ! 2))) \<le> 5 \<and>
   ID (heap line3 ! 2) \<notin> set (Neighbors (heap line3 ! 2))"
proof -
  have r: "reachable 5 1 line3" by (rule line_reachable)
  have "(2::nat) < length (heap line3)" by (simp add: line3_def)
  with Neighbors_bounded [OF r]
  have "int (length (Neighbors (heap line3 ! 2))) \<le> 5 \<and>
        ID (heap line3 ! 2) \<notin> set (Neighbors (heap line3 ! 2))"
    by blast
  moreover have "nodes line3 ''c'' = Some 2" "Neighbors (heap line3 ! 2) = [''b'', ''a'']"
    by (simp_all add: line3_def)
  ultimately show ?thesis using r by blast
qed

text \<open>
  Claim C8, amended. \<open>euclideanDistance v1 v2\<close> fails with an index-out-of-range panic
  exactly when \<open>v1\<close> has more values than \<open>v2\<close>. When \<open>v1\<close> has fewer values than
  \<open>v2\<close> it does not fail: it returns the distance over the first \<open>len(v1.Values)\<close>
  coordinates and ignores the rest of \<open>v2\<close>.
\<close>

theorem euclideanDistance_fails_iff:
  "euclideanDistance v1 v2 =
     (if length (Values v2) < length (Values v1) then Inl IndexOutOfRange
      else Inr (sqrt (\<Sum>(x, y)\<leftarrow>zip (Values v1) (Values v2). (x - y) * (x - y))))"
  by (rule euclideanDistance_eq)

theorem euclideanDistance_shorter_first_counterexample:
  "length (Values \<lparr>Vector_ID = ''a'', Values = [1, 2]\<rparr>)
     \<noteq> length (Values \<lparr>Vector_ID = ''b'', Values = [1, 2, 7]\<rparr>) \<and>
   euclideanDistance \<lparr>Vector_ID = ''a'', Values = [1, 2]\<rparr> \<lparr>Vector_ID = ''b'', Values = [1, 2, 7]\<rparr>
     = Inr 0"
  by (simp add: euclideanDistance_eq)

theorem euclideanDistance_fails_iff_witness:
  "euclideanDistance \<lparr>Vector_ID = ''a'', Values = [1, 2, 7]\<rparr> \<lparr>Vector_ID = ''b'', Values = [1, 2]\<rparr>
     = Inl IndexOutOfRange \<and>
   euclideanDistance \<lparr>Vector_ID = ''b'', Values = [1, 2]\<rparr> \<lparr>Vector_ID = ''a'', Values = [1, 2, 7]\<rparr>
     = Inr 0"
  using euclideanDistance_fails_iff [of "\<lparr>Vector_ID = ''a'', Values = [1, 2, 7]\<rparr>" "\<lparr>Vector_ID = ''b'', Values = [1, 2]\<rparr>"]
    euclideanDistance_fails_iff [of "\<lparr>Vector_ID = ''b'', Values = [1, 2]\<rparr>" "\<lparr>Vector_ID = ''a'', Values = [1, 2, 7]\<rparr>"]
  by simp

text \<open>
  Claim C9. After every public operation that returns, every key of a level table is a
  key of the flat table, where it leads to a node object; so the lookup
  \<open>hnsw.nodes[candidates[i]]\<close> of \<open>NearestNeighbors\<close> never yields the nil pointer.
\<close>
theorem level_keys_in_flat_table:
  assumes "reachable maxNeighbors maxLevels h"
  shows "(\<forall>l < length (levels h). \<forall>key.
            entries (levels h ! l) key \<noteq> None \<longrightarrow>
            (\<exists>q. nodes h key = Some q \<and> q < length (heap h))) \<and>
         (\<forall>order query k. NearestNeighbors h order query k \<noteq> Inl NilPointerDereference)"
proof -
  from reachable_consistent [OF assms] have c: "consistent h" by simp
  then have ml: "MaxLevels h = int (length (levels h))"
    by (simp add: consistent_def well_formed_def)
  have 1: "\<forall>l < length (levels h). \<forall>key.
            entries (levels h ! l) key \<noteq> None \<longrightarrow>
            (\<exists>q. nodes h key = Some q \<and> q < length (heap h))"
    using consistent_entry(3) [OF c] by blast
  have 2: "NearestNeighbors h order query k \<noteq> Inl NilPointerDereference" for order query k
  proof
    assume a: "NearestNeighbors h order query k = Inl NilPointerDereference"
    show False
    proof (cases "NearestNeighbors_levels h order query k (MaxLevels h - 1) [] []")
      case (Inl e)
      from c _ Inl have "e = IndexOutOfRange"
        by (rule NearestNeighbors_levels_Inl) (simp add: ml)
      with a Inl show False by (simp add: NearestNeighbors_def)
    next
      case (Inr r)
      with a show False
        by (cases r) (simp add: NearestNeighbors_def split: if_splits)
    qed
  qed
  from 1 2 show ?thesis by blast
qed

theorem level_keys_in_flat_table_witness:
  "reachable 5 2 tower2 \<and> entries (levels tower2 ! 0) ''b'' \<noteq> None \<and>
   (\<exists>q. nodes tower2 ''b'' = Some q \<and> q < length (heap tower2)) \<and>
   NearestNeighbors tower2 tower_order origin 1 \<noteq> Inl NilPointerDereference"
proof -
  have r: "reachable 5 2 tower2" by (rule tower_reachable)
  have e: "entries (levels tower2 ! 0) ''b'' \<noteq> None" "0 < length (levels tower2)"
    by (simp_all add: tower2_def entries_def)
  from level_keys_in_flat_table [OF r] e r show ?thesis by blast
qed

text \<open>
  Claim C10. For every index, every query and every \<open>k < 0\<close>, \<open>NearestNeighbors\<close> fails:
  no level contributes a vector, the accumulated result has length \<open>0 > k\<close>, and the
  final truncation \<open>bestNeighbors[:k]\<close> panics (unless a panic came earlier in the scan);
  on a newly constructed index the failure is the slice-bounds panic.
\<close>

theorem NearestNeighbors_negative_k:
  assumes "k < 0"
  shows "(\<exists>e. NearestNeighbors h order query k = Inl e) \<and>
         (\<forall>maxNeighbors maxLevels h0. NewHNSW maxNeighbors maxLevels = Inr h0 \<longrightarrow>
            NearestNeighbors h0 order query k = Inl SliceBoundsOutOfRange)"
proof
  show "\<exists>e. NearestNeighbors h order query k = Inl e"
  proof (cases "NearestNeighbors_levels h order query k (MaxLevels h - 1) [] []")
    case (Inl e)
    then show ?thesis by (simp add: NearestNeighbors_def)
  next
    case (Inr r)
    from NearestNeighbors_levels_negative [OF assms Inr] Inr assms show ?thesis
      by (simp add: NearestNeighbors_def)
  qed
  show "\<forall>maxNeighbors maxLevels h0. NewHNSW maxNeighbors maxLevels = Inr h0 \<longrightarrow>
            NearestNeighbors h0 order query k = Inl SliceBoundsOutOfRange"
  proof (intro allI impI)
    fix maxNeighbors maxLevels h0
    assume new: "NewHNSW maxNeighbors maxLevels = Inr h0"
    then have h0: "levels h0 = replicate (nat maxLevels) None" "MaxLevels h0 = maxLevels" "0 \<le> maxLevels"
      by (auto simp: NewHNSW_def split: if_splits)
    have "NearestNeighbors_levels h0 order query k (MaxLevels h0 - 1) [] [] = Inr ([], [])"
      by (rule NearestNeighbors_levels_empty) (use h0 in \<open>simp_all add: entries_def\<close>)
    then show "NearestNeighbors h0 order query k = Inl SliceBoundsOutOfRange"
      using assms by (simp add: NearestNeighbors_def)
  qed
qed

theorem NearestNeighbors_negative_k_witness:
  "(\<exists>e. NearestNeighbors \<lparr>heap = [], nodes = Map.empty, levels = [None], MaxNeighbors = 5, MaxLevels = 1\<rparr>
      (\<lambda>_. []) \<lparr>Vector_ID = ''q'', Values = [0, 0]\<rparr> (- 1) = Inl e) \<and>
   NewHNSW 5 1 = Inr \<lparr>heap = [], nodes = Map.empty, levels = [None], MaxNeighbors = 5, MaxLevels = 1\<rparr> \<and>
   NearestNeighbors \<lparr>heap = [], nodes = Map.empty, levels = [None], MaxNeighbors = 5, MaxLevels = 1\<rparr>
      (\<lambda>_. []) \<lparr>Vector_ID = ''q'', Values = [0, 0]\<rparr> (- 1) = Inl SliceBoundsOutOfRange"
proof -
  have new: "NewHNSW 5 1 = Inr \<lparr>heap = [], nodes = Map.empty, levels = [None], MaxNeighbors = 5, MaxLevels = 1\<rparr>"
    by (simp add: NewHNSW_def)
  have k: "(- 1 :: int) < 0" by simp
  from NearestNeighbors_negative_k [OF k, of _ "\<lambda>_. []" "\<lparr>Vector_ID = ''q'', Values = [0, 0]\<rparr>"] new
  show ?thesis by blast
qed

end
